theory Spec2Isabelle
  imports Complex_Main
begin

section \<open>Python values used by omen-rgb.py\<close>

text \<open>
  The controller is a Python 3 program. Its integers are unbounded (\<open>int\<close>), its strings
  are modelled as ASCII \<open>string\<close>s (every colour the program handles is ASCII text), and
  its floats are IEEE 754 binary64 numbers. An exception raised to the caller is a value
  of \<open>py_exc\<close>; an operation that may raise returns \<open>py_exc option \<times> state\<close>, the state
  holding every effect that happened before the raise.
\<close>

datatype py_exc = ValueError | OverflowError | IndexError

subsection \<open>Floats\<close>

text \<open>
  A finite binary64 number is kept as mantissa and binary exponent, \<open>Dbl m e\<close> standing
  for \<open>m * 2 ^ e\<close>. Every arithmetic operation of Python on floats computes the exact
  result and rounds it once to the nearest representable number, ties to even; \<open>rnd n d x\<close>
  does this for the exact value \<open>(n / d) * 2 ^ x\<close> with \<open>0 < d\<close>, in integer arithmetic.
  Results are normalised (mantissa magnitude in \<open>[2^52, 2^53)\<close>, zero as \<open>Dbl 0 0\<close>), so
  equal numbers have equal representations. Subnormal results cannot arise from the
  operands of this program (the smallest nonzero magnitudes are \<open>1/20\<close> and
  \<open>1/20000\<close>); overflow is checked where the program can reach it.
\<close>

datatype double = Dbl (mant: int) (expn: int)

function bitlen :: "int \<Rightarrow> int" where
  "bitlen n = (if n \<le> 0 then 0 else 1 + bitlen (n div 2))"
  by pat_completeness auto
termination
  by (relation "measure nat") auto

declare bitlen.simps [simp del]

definition binade_frac :: "int \<Rightarrow> int \<Rightarrow> int" where
  \<comment> \<open>for \<open>0 < n\<close>, \<open>0 < d\<close>: the \<open>k\<close> with \<open>2 ^ k \<le> n / d < 2 ^ (k + 1)\<close>\<close>
  "binade_frac n d =
     (let k = bitlen n - bitlen d
      in if d * 2 ^ nat k \<le> n * 2 ^ nat (- k) then k else k - 1)"

definition round_half_even_div :: "int \<Rightarrow> int \<Rightarrow> int" where
  \<comment> \<open>for \<open>0 \<le> N\<close>, \<open>0 < D\<close>: the integer nearest to \<open>N / D\<close>, ties to even\<close>
  "round_half_even_div N D =
     (let q = N div D; r = N mod D
      in if 2 * r < D then q else if D < 2 * r then q + 1 else if even q then q else q + 1)"

definition rnd :: "int \<Rightarrow> int \<Rightarrow> int \<Rightarrow> double" where
  "rnd n d x =
     (if n = 0 then Dbl 0 0
      else let k = binade_frac \<bar>n\<bar> d;
               M = round_half_even_div (\<bar>n\<bar> * 2 ^ nat (52 - k)) (d * 2 ^ nat (k - 52))
           in if M = 2 ^ 53 then Dbl (sgn n * 2 ^ 52) (k - 51 + x)
              else Dbl (sgn n * M) (k - 52 + x))"

definition val :: "double \<Rightarrow> rat" where
  "val f = of_int (mant f) * 2 powi (expn f)"

definition float_of_int :: "int \<Rightarrow> double" where
  \<comment> \<open>the implicit conversion in \<open>int + float\<close>, \<open>int * float\<close>, \<open>int / float\<close>\<close>
  "float_of_int n = rnd n 1 0"

definition int_truediv :: "int \<Rightarrow> int \<Rightarrow> double" where
  \<comment> \<open>\<open>a / b\<close> on two ints with \<open>0 < b\<close>: correctly rounded quotient\<close>
  "int_truediv a b = rnd a b 0"

definition float_mul :: "double \<Rightarrow> double \<Rightarrow> double" where
  "float_mul a b = rnd (mant a * mant b) 1 (expn a + expn b)"

definition float_add :: "double \<Rightarrow> double \<Rightarrow> double" where
  "float_add a b =
     (let e = min (expn a) (expn b)
      in rnd (mant a * 2 ^ nat (expn a - e) + mant b * 2 ^ nat (expn b - e)) 1 e)"

definition float_div :: "double \<Rightarrow> double \<Rightarrow> double" where
  \<comment> \<open>\<open>a / b\<close> on floats, \<open>b\<close> not zero\<close>
  "float_div a b = rnd (mant a * sgn (mant b)) \<bar>mant b\<bar> (expn a - expn b)"

definition float_overflows :: "double \<Rightarrow> bool" where
  \<comment> \<open>the rounded magnitude is \<open>2 ^ 1024\<close> or more: not a finite binary64 number\<close>
  "float_overflows f = (mant f \<noteq> 0 \<and> 971 < expn f)"

definition py_int :: "double \<Rightarrow> int" where
  \<comment> \<open>\<open>int(f)\<close>: truncation toward zero\<close>
  "py_int f =
     (if 0 \<le> expn f then mant f * 2 ^ nat (expn f)
      else sgn (mant f) * (\<bar>mant f\<bar> div 2 ^ nat (- expn f)))"

subsection \<open>Strings\<close>

definition py_isspace :: "char \<Rightarrow> bool" where
  "py_isspace c = (of_char c \<in> {9, 10, 11, 12, 13, 28, 29, 30, 31, 32 :: nat})"

definition py_strip :: "string \<Rightarrow> string" where
  "py_strip s = rev (dropWhile py_isspace (rev (dropWhile py_isspace s)))"

definition lower_char :: "char \<Rightarrow> char" where
  "lower_char c =
     (case map_of (zip ''ABCDEFGHIJKLMNOPQRSTUVWXYZ'' ''abcdefghijklmnopqrstuvwxyz'') c of
        Some l \<Rightarrow> l
      | None \<Rightarrow> c)"

definition py_lower :: "string \<Rightarrow> string" where
  "py_lower s = map lower_char s"

definition py_slice :: "string \<Rightarrow> nat \<Rightarrow> nat \<Rightarrow> string" where
  \<comment> \<open>\<open>s[i:j]\<close> for \<open>0 \<le> i \<le> j\<close>; a slice never raises, it is cut at the end of \<open>s\<close>\<close>
  "py_slice s i j = take (j - i) (drop i s)"

definition hexval :: "char \<Rightarrow> nat option" where
  "hexval c =
     map_of (zip ''0123456789abcdef'' [0 ..< 16] @ zip ''ABCDEF'' [10 ..< 16]) c"

definition hexdigit :: "nat \<Rightarrow> char" where
  "hexdigit n = ''0123456789abcdef'' ! n"

fun scan16 :: "nat \<Rightarrow> char \<Rightarrow> string \<Rightarrow> nat option" where
  "scan16 acc prev [] = (if prev = CHR ''_'' then None else Some acc)"
| "scan16 acc prev (c # cs) =
     (if c = CHR ''_'' then (if prev = CHR ''_'' then None else scan16 acc c cs)
      else case hexval c of
             None \<Rightarrow> None
           | Some v \<Rightarrow> scan16 (16 * acc + v) c cs)"

definition py_int16 :: "string \<Rightarrow> py_exc + int" where
  \<comment> \<open>\<open>int(s, 16)\<close>: surrounding whitespace, an optional sign, an optional \<open>0x\<close> prefix,
      then hex digits in which single underscores may separate digits\<close>
  "py_int16 s =
     (let s1 = py_strip s;
          neg = (s1 \<noteq> [] \<and> hd s1 = CHR ''-'');
          s2 = (if s1 \<noteq> [] \<and> (hd s1 = CHR ''-'' \<or> hd s1 = CHR ''+'') then tl s1 else s1);
          pre = (length s2 \<ge> 2 \<and> hd s2 = CHR ''0''
                   \<and> (hd (tl s2) = CHR ''x'' \<or> hd (tl s2) = CHR ''X''));
          s3 = (if pre then drop 2 s2 else s2);
          s4 = (if pre \<and> s3 \<noteq> [] \<and> hd s3 = CHR ''_'' then tl s3 else s3)
      in if s4 = [] \<or> hd s4 = CHR ''_'' then Inl ValueError
         else case scan16 0 (CHR ''0'') s4 of
                None \<Rightarrow> Inl ValueError
              | Some n \<Rightarrow> Inr (if neg then - int n else int n))"

fun to_hex :: "nat \<Rightarrow> string" where
  "to_hex n = (if n < 16 then [hexdigit n] else to_hex (n div 16) @ [hexdigit (n mod 16)])"

declare to_hex.simps [simp del]

definition fmt_02x :: "int \<Rightarrow> string" where
  \<comment> \<open>the format spec \<open>02x\<close>: lowercase hex, zero-padded to width 2, the sign counted in\<close>
  "fmt_02x n =
     (if n < 0 then CHR ''-'' # to_hex (nat (- n))
      else let h = to_hex (nat n) in replicate (2 - length h) (CHR ''0'') @ h)"

section \<open>Utilities\<close>

definition hex_to_rgb :: "string \<Rightarrow> py_exc + (int \<times> int \<times> int)" where
  "hex_to_rgb h =
     (case py_int16 (py_slice h 0 2) of
        Inl e \<Rightarrow> Inl e
      | Inr r \<Rightarrow>
          (case py_int16 (py_slice h 2 4) of
             Inl e \<Rightarrow> Inl e
           | Inr g \<Rightarrow>
               (case py_int16 (py_slice h 4 6) of
                  Inl e \<Rightarrow> Inl e
                | Inr b \<Rightarrow> Inr (r, g, b))))"

definition rgb_to_hex :: "int \<times> int \<times> int \<Rightarrow> string" where
  "rgb_to_hex c = (case c of (r, g, b) \<Rightarrow> fmt_02x r @ fmt_02x g @ fmt_02x b)"

definition py_index :: "'a list \<Rightarrow> int \<Rightarrow> py_exc + 'a" where
  \<comment> \<open>\<open>xs[i]\<close>: index \<open>- k\<close> is the \<open>k\<close>-th element from the end; IndexError outside\<close>
  "py_index xs i =
     (if 0 \<le> i \<and> i < int (length xs) then Inr (xs ! nat i)
      else if i < 0 \<and> - int (length xs) \<le> i then Inr (xs ! nat (int (length xs) + i))
      else Inl IndexError)"

section \<open>The hardware sink\<close>

text \<open>
  \<open>write_color\<close> opens the sysfs attribute, writes the text and closes it; whether that
  succeeds is decided by the operating system. The model takes the outcome of the
  \<open>n\<close>-th attempt from \<open>io s n\<close>, a parameter of the state, and records every attempt with
  its outcome. The assignment to the global \<open>_current_hardware_color\<close> comes after the
  \<open>with\<close> block, so it happens exactly when nothing in the block raised.
  \<open>PermissionError\<close> and every other \<open>Exception\<close> are caught and reported on stderr.
\<close>

datatype io_outcome = WriteOk | PermissionDenied | OtherIoError

datatype log_line = ErrPermission | ErrWriting | ErrThread

datatype anim =
    Rainbow (hue: int)
  | NewYears (colors: "string list") (color_index: int)
  | Police (colors: "string list") (color_index: int)

record thread =
  delay_s :: double
  stop_event :: bool
  anim :: anim
  running :: bool

record state =
  current_hardware_color :: "string option"
  attempts :: "(string \<times> io_outcome) list"
  stderr :: "log_line list"
  sleeps :: "double list"
  io :: "nat \<Rightarrow> io_outcome"
  threads :: "thread list"
  active_thread :: "nat option"
  settings :: "string \<Rightarrow> string option"
  quit :: bool

definition STATIC_DURATION_MS :: int where
  "STATIC_DURATION_MS = 100"

definition RAIN_DELAY_MS :: int where
  "RAIN_DELAY_MS = 10"

definition write_color :: "string \<Rightarrow> state \<Rightarrow> state" where
  "write_color col_hex s =
     (case io s (length (attempts s)) of
        WriteOk \<Rightarrow>
          s\<lparr>attempts := attempts s @ [(col_hex, WriteOk)],
            current_hardware_color := Some col_hex\<rparr>
      | PermissionDenied \<Rightarrow>
          s\<lparr>attempts := attempts s @ [(col_hex, PermissionDenied)],
            stderr := stderr s @ [ErrPermission]\<rparr>
      | OtherIoError \<Rightarrow>
          s\<lparr>attempts := attempts s @ [(col_hex, OtherIoError)],
            stderr := stderr s @ [ErrWriting]\<rparr>)"

definition py_sleep :: "double \<Rightarrow> state \<Rightarrow> py_exc option \<times> state" where
  \<comment> \<open>\<open>time.sleep(secs)\<close>: a negative length raises ValueError; the length asked for is
      recorded, the time that really passes is not modelled. Lengths beyond the range of
      the platform's clock (some \<open>9.2e9\<close> seconds), which the interpreter refuses, are
      outside the model: the theorems on timed transitions take \<open>duration_ms < 2^32\<close>.\<close>
  "py_sleep secs s =
     (if mant secs < 0 then (Some ValueError, s) else (None, s\<lparr>sleeps := sleeps s @ [secs]\<rparr>))"

section \<open>The transition engine\<close>

definition steps :: int where
  "steps = 20"

definition lerp :: "int \<Rightarrow> int \<Rightarrow> double \<Rightarrow> int" where
  \<comment> \<open>\<open>int(c0 + (c1 - c0) * t)\<close>\<close>
  "lerp c0 c1 t = py_int (float_add (float_of_int c0) (float_mul (float_of_int (c1 - c0)) t))"

fun transition_loop ::
  "int \<times> int \<times> int \<Rightarrow> int \<times> int \<times> int \<Rightarrow> double \<Rightarrow> int list \<Rightarrow> state \<Rightarrow> py_exc option \<times> state"
where
  "transition_loop c0 c1 delay [] s = (None, s)"
| "transition_loop c0 c1 delay (i # rest) s =
     (case (c0, c1) of
        ((r0, g0, b0), (r1, g1, b1)) \<Rightarrow>
          (let t = int_truediv i steps;
               ir = lerp r0 r1 t;
               ig = lerp g0 g1 t;
               ib = lerp b0 b1 t;
               s1 = write_color (rgb_to_hex (ir, ig, ib)) s
           in case py_sleep delay s1 of
                (Some e, s2) \<Rightarrow> (Some e, s2)
              | (None, s2) \<Rightarrow> transition_loop c0 c1 delay rest s2))"

definition set_color :: "string \<Rightarrow> int option \<Rightarrow> state \<Rightarrow> py_exc option \<times> state" where
  \<comment> \<open>the condition is \<open>duration_ms and _current_hardware_color and
      _current_hardware_color.lower() != col_hex.lower()\<close>: \<open>None\<close>, \<open>0\<close> and the empty
      string are false\<close>
  "set_color col_hex duration_ms s =
     (case (duration_ms, current_hardware_color s) of
        (Some d, Some cur) \<Rightarrow>
          if d \<noteq> 0 \<and> cur \<noteq> [] \<and> py_lower cur \<noteq> py_lower col_hex then
            (case hex_to_rgb cur of
               Inl e \<Rightarrow> (Some e, s)
             | Inr c0 \<Rightarrow>
                 (case hex_to_rgb col_hex of
                    Inl e \<Rightarrow> (Some e, s)
                  | Inr c1 \<Rightarrow>
                      (let q = int_truediv d steps
                       in if float_overflows q then (Some OverflowError, s)
                          else transition_loop c0 c1 (float_div q (float_of_int 1000))
                                 [1 .. steps] s)))
          else (None, write_color col_hex s)
      | _ \<Rightarrow> (None, write_color col_hex s))"

section \<open>Animation threads\<close>

text \<open>
  A thread object carries the fields its class sets in \<open>__init__\<close>, and \<open>running\<close>: the
  thread has been started and \<open>run\<close> has not returned. \<open>thread_iteration i\<close> is one pass of
  the body of the loop in \<open>run\<close>, taken by thread \<open>i\<close> when the loop condition holds.
  \<open>stop\<close> sets the stop event and waits for \<open>run\<close> to return; the model takes both as one
  step, so that a pass still under way when \<open>stop\<close> is called belongs to the steps of the
  thread before it.
\<close>

definition hsv_channel :: "int \<Rightarrow> int" where
  \<comment> \<open>the fraction \<open>k / 60\<close> as a 16-bit channel, rounded, of which the high byte is kept\<close>
  "hsv_channel k = ((2 * k * 65535 + 60) div 120) div 256"

definition qcolor_hsv_name :: "int \<Rightarrow> string" where
  \<comment> \<open>Modelled from the spec: \<open>QColor.fromHsv(h, 255, 255).name()[1:]\<close> is code of the Qt
      library, not of src/. This is the standard HSV to RGB conversion at full saturation
      and full value: the hue picks one of six sectors of 60 degrees, in which one channel
      is full, one is zero and one rises or falls linearly.\<close>
  "qcolor_hsv_name h =
     (if h < 0 \<or> 360 \<le> h then ''000000''
      else let f = h mod 60; up = hsv_channel f; down = hsv_channel (60 - f); i = h div 60
           in rgb_to_hex
                (if i = 0 then (255, up, 0)
                 else if i = 1 then (down, 255, 0)
                 else if i = 2 then (0, 255, up)
                 else if i = 3 then (0, down, 255)
                 else if i = 4 then (up, 0, 255)
                 else (255, 0, down)))"

definition seconds_of_ms :: "int \<Rightarrow> double" where
  \<comment> \<open>\<open>delay_ms / 1000.0\<close>\<close>
  "seconds_of_ms delay_ms = float_div (float_of_int delay_ms) (float_of_int 1000)"

definition RainbowThread :: "int \<Rightarrow> thread" where
  "RainbowThread delay_ms =
     \<lparr>delay_s = seconds_of_ms delay_ms, stop_event = False, anim = Rainbow 0, running = False\<rparr>"

definition NewYearsThread :: "int \<Rightarrow> thread" where
  "NewYearsThread delay_ms =
     \<lparr>delay_s = seconds_of_ms delay_ms, stop_event = False,
      anim = NewYears [''ff0000'', ''00ff00''] 0, running = False\<rparr>"

definition PoliceThread :: "int \<Rightarrow> thread" where
  "PoliceThread delay_ms =
     \<lparr>delay_s = seconds_of_ms delay_ms, stop_event = False,
      anim = Police [''ff0000'', ''0000ff''] 0, running = False\<rparr>"

definition set_thread :: "nat \<Rightarrow> thread \<Rightarrow> state \<Rightarrow> state" where
  "set_thread i th s = s\<lparr>threads := (threads s)[i := th]\<rparr>"

definition update_color :: "nat \<Rightarrow> (string list \<Rightarrow> int \<Rightarrow> anim) \<Rightarrow> string list \<Rightarrow> int \<Rightarrow> state \<Rightarrow> state" where
  \<comment> \<open>\<open>write_color(self.colors[self.color_index])\<close>, then the index moves on; an exception
      ends \<open>run\<close>, which reports it\<close>
  "update_color i mk cs idx s =
     (case py_index cs idx of
        Inl e \<Rightarrow>
          (set_thread i ((threads s ! i)\<lparr>running := False\<rparr>) s)\<lparr>stderr := stderr s @ [ErrThread]\<rparr>
      | Inr c \<Rightarrow>
          (let s1 = write_color c s
           in set_thread i ((threads s1 ! i)\<lparr>anim := mk cs ((idx + 1) mod int (length cs))\<rparr>) s1))"

definition thread_iteration :: "nat \<Rightarrow> state \<Rightarrow> state" where
  "thread_iteration i s =
     (if i < length (threads s) \<and> running (threads s ! i) \<and> \<not> stop_event (threads s ! i) then
        (case anim (threads s ! i) of
           Rainbow h \<Rightarrow>
             (let s1 = write_color (qcolor_hsv_name (h mod 360)) s
              in set_thread i ((threads s1 ! i)\<lparr>anim := Rainbow (h + 1)\<rparr>) s1)
         | NewYears cs idx \<Rightarrow> update_color i NewYears cs idx s
         | Police cs idx \<Rightarrow> update_color i Police cs idx s)
      else s)"

fun iterations :: "nat \<Rightarrow> nat \<Rightarrow> state \<Rightarrow> state" where
  "iterations 0 i s = s"
| "iterations (Suc n) i s = iterations n i (thread_iteration i s)"

section \<open>The controller\<close>

definition thread_stop :: "nat \<Rightarrow> state \<Rightarrow> state" where
  \<comment> \<open>\<open>stop\<close>: \<open>self.stop_event.set()\<close>, then \<open>self.wait()\<close> returns once \<open>run\<close> has returned\<close>
  "thread_stop i s = set_thread i ((threads s ! i)\<lparr>stop_event := True, running := False\<rparr>) s"

definition stop_active_thread :: "state \<Rightarrow> state" where
  "stop_active_thread s =
     (case active_thread s of
        None \<Rightarrow> s
      | Some i \<Rightarrow> (thread_stop i s)\<lparr>active_thread := None\<rparr>)"

definition start_thread :: "thread \<Rightarrow> state \<Rightarrow> state" where
  \<comment> \<open>the thread object gets the next free index when it is handed over\<close>
  "start_thread thread_instance s =
     (let s1 = stop_active_thread s
      in s1\<lparr>threads := threads s1 @ [thread_instance\<lparr>running := True\<rparr>],
            active_thread := Some (length (threads s1))\<rparr>)"

definition settings_value :: "state \<Rightarrow> string \<Rightarrow> string \<Rightarrow> string" where
  "settings_value s key dflt = (case settings s key of None \<Rightarrow> dflt | Some v \<Rightarrow> v)"

definition set_value :: "string \<Rightarrow> string \<Rightarrow> state \<Rightarrow> state" where
  "set_value key v s = s\<lparr>settings := (settings s)(key \<mapsto> v)\<rparr>"

definition activate_mode :: "string \<Rightarrow> bool \<Rightarrow> state \<Rightarrow> py_exc option \<times> state" where
  "activate_mode mode is_startup s =
     (let s1 = stop_active_thread s
      in if mode = ''Static Color'' then
           set_color (settings_value s1 ''lastStaticColor'' ''ffffff'')
             (if is_startup then None else Some STATIC_DURATION_MS) s1
         else if mode = ''Rainbow'' then (None, start_thread (RainbowThread RAIN_DELAY_MS) s1)
         else if mode = ''New Year's'' then (None, start_thread (NewYearsThread 500) s1)
         else if mode = ''Police'' then (None, start_thread (PoliceThread 100) s1)
         else (None, s1))"

definition on_mode :: "string \<Rightarrow> state \<Rightarrow> py_exc option \<times> state" where
  "on_mode mode s =
     (if mode \<noteq> [] then activate_mode mode False (set_value ''lastMode'' mode s) else (None, s))"

definition apply_static_color :: "string \<Rightarrow> state \<Rightarrow> py_exc option \<times> state" where
  "apply_static_color color_hex s =
     (case set_color color_hex (Some STATIC_DURATION_MS) (stop_active_thread s) of
        (Some e, s1) \<Rightarrow> (Some e, s1)
      | (None, s1) \<Rightarrow>
          (let s2 = set_value ''lastStaticColor'' color_hex s1
           in (None, if settings s2 ''lastMode'' \<noteq> Some ''Static Color''
                     then set_value ''lastMode'' ''Static Color'' s2 else s2)))"

definition load_settings :: "state \<Rightarrow> py_exc option \<times> state" where
  "load_settings s = activate_mode (settings_value s ''lastMode'' ''Static Color'') True s"

definition exit_app :: "state \<Rightarrow> state" where
  "exit_app s = (stop_active_thread s)\<lparr>quit := True\<rparr>"

definition init_state :: "(nat \<Rightarrow> io_outcome) \<Rightarrow> (string \<Rightarrow> string option) \<Rightarrow> state" where
  \<comment> \<open>the process after \<open>RGBController.__init__\<close>: nothing written, no thread\<close>
  "init_state env stored =
     \<lparr>current_hardware_color = None, attempts = [], stderr = [], sleeps = [], io = env,
      threads = [], active_thread = None, settings = stored, quit = False\<rparr>"

inductive reachable :: "state \<Rightarrow> bool" where
  r_init: "reachable (init_state env stored)"
| r_set_color: "reachable s \<Longrightarrow> reachable (snd (set_color c d s))"
| r_activate_mode: "reachable s \<Longrightarrow> reachable (snd (activate_mode m b s))"
| r_on_mode: "reachable s \<Longrightarrow> reachable (snd (on_mode m s))"
| r_apply_static_color: "reachable s \<Longrightarrow> reachable (snd (apply_static_color c s))"
| r_load_settings: "reachable s \<Longrightarrow> reachable (snd (load_settings s))"
| r_start_thread: "reachable s \<Longrightarrow> reachable (start_thread th s)"
| r_stop_active_thread: "reachable s \<Longrightarrow> reachable (stop_active_thread s)"
| r_exit_app: "reachable s \<Longrightarrow> reachable (exit_app s)"
| r_thread_iteration: "reachable s \<Longrightarrow> reachable (thread_iteration i s)"

definition live :: "state \<Rightarrow> nat \<Rightarrow> bool" where
  "live s i = (i < length (threads s) \<and> running (threads s ! i))"

definition io_const :: "io_outcome \<Rightarrow> nat \<Rightarrow> io_outcome" where
  \<comment> \<open>an environment in which every attempt has the same outcome\<close>
  "io_const r n = r"

definition no_settings :: "string \<Rightarrow> string option" where
  \<comment> \<open>an empty settings store\<close>
  "no_settings key = None"

definition well_indexed :: "anim \<Rightarrow> bool" where
  \<comment> \<open>the index of a colour cycle points into its list\<close>
  "well_indexed a =
     (case a of
        Rainbow h \<Rightarrow> True
      | NewYears cs k \<Rightarrow> 0 \<le> k \<and> k < int (length cs)
      | Police cs k \<Rightarrow> 0 \<le> k \<and> k < int (length cs))"

definition owned :: "state \<Rightarrow> bool" where
  \<comment> \<open>every live thread is the one the controller holds in \<open>active_thread\<close>\<close>
  "owned s = (\<forall>i. live s i \<longrightarrow> active_thread s = Some i)"

definition hex6 :: "string \<Rightarrow> bool" where
  \<comment> \<open>a colour as the program receives it: six hex digits, of either case\<close>
  "hex6 s = (length s = 6 \<and> (\<forall>c \<in> set s. hexval c \<noteq> None))"

definition lower_hex6 :: "string \<Rightarrow> bool" where
  \<comment> \<open>the canonical form: six lowercase hex digits\<close>
  "lower_hex6 s = (length s = 6 \<and> (\<forall>c \<in> set s. c \<in> set ''0123456789abcdef''))"

section \<open>Reference notions for the transition\<close>

text \<open>
  The definitions of this section are not code of the program. \<open>nearest\<close> says what
  rounding to binary64 is, on the rationals: the number is scaled into
  \<open>[2^52, 2^53)\<close> by its binade, rounded to an integer with ties to even, and scaled
  back. \<open>exact_lerp\<close> and \<open>exact_frame\<close> follow the words of the specification, which
  interpolates in exact arithmetic and truncates toward zero; \<open>frame\<close> names the colour
  that the loop of \<open>set_color\<close> computes at step \<open>i\<close>.
\<close>

definition rne :: "rat \<Rightarrow> int" where
  \<comment> \<open>the nearest integer, ties to even\<close>
  "rne x =
     (if x - of_int \<lfloor>x\<rfloor> < 1 / 2 then \<lfloor>x\<rfloor>
      else if 1 / 2 < x - of_int \<lfloor>x\<rfloor> then \<lfloor>x\<rfloor> + 1
      else if even \<lfloor>x\<rfloor> then \<lfloor>x\<rfloor> else \<lfloor>x\<rfloor> + 1)"

definition binade :: "rat \<Rightarrow> int" where
  \<comment> \<open>for \<open>q \<noteq> 0\<close>: the \<open>k\<close> with \<open>2 ^ k \<le> \<bar>q\<bar> < 2 ^ (k + 1)\<close>\<close>
  "binade q = (case quotient_of \<bar>q\<bar> of (n, d) \<Rightarrow> binade_frac n d)"

definition nearest :: "rat \<Rightarrow> rat" where
  "nearest q =
     (if q = 0 then 0
      else sgn q * of_int (rne (\<bar>q\<bar> * 2 powi (52 - binade q))) * 2 powi (binade q - 52))"

definition trunc :: "rat \<Rightarrow> int" where
  \<comment> \<open>truncation toward zero\<close>
  "trunc q = (if 0 \<le> q then \<lfloor>q\<rfloor> else \<lceil>q\<rceil>)"

definition lerp_float :: "int \<Rightarrow> int \<Rightarrow> rat \<Rightarrow> rat" where
  \<comment> \<open>the float \<open>c0 + (c1 - c0) * t\<close> of the program, before \<open>int()\<close>\<close>
  "lerp_float c0 c1 t = nearest (of_int c0 + nearest (of_int (c1 - c0) * t))"

definition exact_lerp :: "int \<Rightarrow> int \<Rightarrow> int \<Rightarrow> int" where
  \<comment> \<open>the specification's channel: \<open>start + (end - start) * t\<close> with \<open>t = i / 20\<close>,
      computed exactly and truncated toward zero\<close>
  "exact_lerp c0 c1 i = trunc (of_int c0 + of_int (c1 - c0) * (of_int i / 20))"

datatype channel = Red | Green | Blue

fun chan :: "channel \<Rightarrow> int \<times> int \<times> int \<Rightarrow> int" where
  "chan Red (r, g, b) = r"
| "chan Green (r, g, b) = g"
| "chan Blue (r, g, b) = b"

definition frame :: "int \<times> int \<times> int \<Rightarrow> int \<times> int \<times> int \<Rightarrow> int \<Rightarrow> int \<times> int \<times> int" where
  \<comment> \<open>\<open>(ir, ig, ib)\<close> of step \<open>i\<close> in the loop of \<open>set_color\<close>\<close>
  "frame c0 c1 i =
     (lerp (chan Red c0) (chan Red c1) (int_truediv i steps),
      lerp (chan Green c0) (chan Green c1) (int_truediv i steps),
      lerp (chan Blue c0) (chan Blue c1) (int_truediv i steps))"

definition exact_frame :: "int \<times> int \<times> int \<Rightarrow> int \<times> int \<times> int \<Rightarrow> int \<Rightarrow> int \<times> int \<times> int" where
  "exact_frame c0 c1 i =
     (exact_lerp (chan Red c0) (chan Red c1) i,
      exact_lerp (chan Green c0) (chan Green c1) i,
      exact_lerp (chan Blue c0) (chan Blue c1) i)"

definition rgb8 :: "int \<times> int \<times> int \<Rightarrow> bool" where
  "rgb8 c = (0 \<le> chan Red c \<and> chan Red c \<le> 255 \<and> 0 \<le> chan Green c \<and> chan Green c \<le> 255
             \<and> 0 \<le> chan Blue c \<and> chan Blue c \<le> 255)"

definition black_then :: state where
  \<comment> \<open>the process after one successful direct write of black\<close>
  "black_then = snd (set_color ''000000'' None (init_state (io_const WriteOk) no_settings))"

section \<open>The hardware sink: what a write changes\<close>

lemma write_color_attempts:
  "attempts (write_color c s) = attempts s @ [(c, io s (length (attempts s)))]"
  by (simp add: write_color_def split: io_outcome.split)

lemma write_color_frame:
  "threads (write_color c s) = threads s"
  "active_thread (write_color c s) = active_thread s"
  "settings (write_color c s) = settings s"
  "io (write_color c s) = io s"
  "sleeps (write_color c s) = sleeps s"
  "quit (write_color c s) = quit s"
  by (simp_all add: write_color_def split: io_outcome.split)

lemma write_color_current:
  "current_hardware_color (write_color c s) =
     (if io s (length (attempts s)) = WriteOk then Some c else current_hardware_color s)"
  by (simp add: write_color_def split: io_outcome.split)

lemma write_color_stderr:
  "length (stderr (write_color c s)) =
     (if io s (length (attempts s)) = WriteOk then length (stderr s)
      else Suc (length (stderr s)))"
  by (simp add: write_color_def split: io_outcome.split)

text \<open>
  Claim C6. For every colour, \<open>write_color\<close> sets the stored last hardware colour to that
  colour exactly when the write succeeds; when the write fails, with a permission error
  or with any other error, the stored colour is left as it was.
\<close>

theorem write_color_updates_on_success_only:
  "(io s (length (attempts s)) = WriteOk \<longrightarrow>
      current_hardware_color (write_color c s) = Some c)
   \<and> (io s (length (attempts s)) \<noteq> WriteOk \<longrightarrow>
      current_hardware_color (write_color c s) = current_hardware_color s)"
  by (simp add: write_color_current)

theorem write_color_updates_on_success_only_witness:
  "io (init_state (io_const WriteOk) no_settings)
      (length (attempts (init_state (io_const WriteOk) no_settings))) = WriteOk
   \<and> current_hardware_color (write_color ''ff0000'' (init_state (io_const WriteOk) no_settings))
       = Some ''ff0000''
   \<and> io (init_state (io_const PermissionDenied) no_settings)
      (length (attempts (init_state (io_const PermissionDenied) no_settings))) \<noteq> WriteOk
   \<and> current_hardware_color
        (write_color ''ff0000'' (init_state (io_const PermissionDenied) no_settings)) = None"
  using write_color_updates_on_success_only
          [of "init_state (io_const WriteOk) no_settings" "''ff0000''"]
        write_color_updates_on_success_only
          [of "init_state (io_const PermissionDenied) no_settings" "''ff0000''"]
  by (simp add: init_state_def io_const_def)

section \<open>The transition engine: the direct write\<close>

text \<open>
  Claim C2. \<open>set_color\<close> makes exactly one hardware write, of the target as it was given
  and without interpolation, when the duration is unset or zero, or when no write has
  succeeded yet, or when the last hardware colour equals the target up to the case of
  the letters. So a transition to the current colour is one write for every duration.
\<close>

theorem set_color_direct_write:
  assumes "duration_ms = None \<or> duration_ms = Some 0 \<or> current_hardware_color s = None
           \<or> (\<exists>cur. current_hardware_color s = Some cur \<and> py_lower cur = py_lower col_hex)"
  shows "set_color col_hex duration_ms s = (None, write_color col_hex s)
         \<and> attempts (write_color col_hex s)
             = attempts s @ [(col_hex, io s (length (attempts s)))]"
  using assms
  by (auto simp: set_color_def write_color_attempts split: option.splits)

theorem set_color_direct_write_witness:
  "current_hardware_color
       ((init_state (io_const WriteOk) no_settings)\<lparr>current_hardware_color := Some ''FF7F00''\<rparr>)
     = Some ''FF7F00''
   \<and> py_lower ''FF7F00'' = py_lower ''ff7f00''
   \<and> set_color ''ff7f00'' (Some 100)
        ((init_state (io_const WriteOk) no_settings)\<lparr>current_hardware_color := Some ''FF7F00''\<rparr>)
      = (None, write_color ''ff7f00''
          ((init_state (io_const WriteOk) no_settings)\<lparr>current_hardware_color := Some ''FF7F00''\<rparr>))"
  using set_color_direct_write
          [of "Some 100"
              "(init_state (io_const WriteOk) no_settings)\<lparr>current_hardware_color := Some ''FF7F00''\<rparr>"
              "''ff7f00''"]
  by (simp add: init_state_def py_lower_def lower_char_def)

section \<open>Threads and the controller: frame lemmas\<close>

lemma set_thread_frame:
  "attempts (set_thread i th s) = attempts s"
  "current_hardware_color (set_thread i th s) = current_hardware_color s"
  "stderr (set_thread i th s) = stderr s"
  "active_thread (set_thread i th s) = active_thread s"
  "io (set_thread i th s) = io s"
  "length (threads (set_thread i th s)) = length (threads s)"
  by (simp_all add: set_thread_def)

lemma set_thread_nth:
  "i < length (threads s) \<Longrightarrow> threads (set_thread i th s) ! i = th"
  "j \<noteq> i \<Longrightarrow> threads (set_thread i th s) ! j = threads s ! j"
  by (simp_all add: set_thread_def)

lemma stop_active_thread_frame:
  "attempts (stop_active_thread s) = attempts s"
  "current_hardware_color (stop_active_thread s) = current_hardware_color s"
  "stderr (stop_active_thread s) = stderr s"
  "io (stop_active_thread s) = io s"
  "length (threads (stop_active_thread s)) = length (threads s)"
  "active_thread (stop_active_thread s) = None"
  by (simp_all add: stop_active_thread_def thread_stop_def set_thread_def split: option.split)

lemma stop_active_thread_stops:
  "active_thread s = Some i \<Longrightarrow> i < length (threads s) \<Longrightarrow>
     \<not> running (threads (stop_active_thread s) ! i)
     \<and> stop_event (threads (stop_active_thread s) ! i)"
  by (simp add: stop_active_thread_def thread_stop_def set_thread_def)

text \<open>
  Claim C10. For every mode string other than "Static Color", "Rainbow", "New Year's" and
  "Police", \<open>activate_mode\<close> stops and joins the active animation thread, if there is
  one, makes no hardware write and leaves the last hardware colour as it was.
\<close>

theorem activate_mode_unknown_mode:
  assumes "mode \<noteq> ''Static Color''" "mode \<noteq> ''Rainbow''" "mode \<noteq> ''New Year's''"
    "mode \<noteq> ''Police''"
  shows "activate_mode mode is_startup s = (None, stop_active_thread s)
         \<and> attempts (stop_active_thread s) = attempts s
         \<and> current_hardware_color (stop_active_thread s) = current_hardware_color s
         \<and> active_thread (stop_active_thread s) = None
         \<and> (\<forall>i. active_thread s = Some i \<and> i < length (threads s) \<longrightarrow>
               \<not> live (stop_active_thread s) i
               \<and> stop_event (threads (stop_active_thread s) ! i))"
  using assms
  by (simp add: activate_mode_def stop_active_thread_frame stop_active_thread_stops live_def)

theorem activate_mode_unknown_mode_witness:
  "''Strobe'' \<noteq> ''Static Color'' \<and> ''Strobe'' \<noteq> ''Rainbow'' \<and> ''Strobe'' \<noteq> ''New Year's''
   \<and> ''Strobe'' \<noteq> ''Police''
   \<and> active_thread (start_thread (RainbowThread 10) (init_state (io_const WriteOk) no_settings))
       = Some 0
   \<and> live (start_thread (RainbowThread 10) (init_state (io_const WriteOk) no_settings)) 0
   \<and> activate_mode ''Strobe'' False
        (start_thread (RainbowThread 10) (init_state (io_const WriteOk) no_settings))
      = (None, stop_active_thread
                 (start_thread (RainbowThread 10) (init_state (io_const WriteOk) no_settings)))
   \<and> \<not> live (stop_active_thread
               (start_thread (RainbowThread 10) (init_state (io_const WriteOk) no_settings))) 0
   \<and> attempts (stop_active_thread
                 (start_thread (RainbowThread 10) (init_state (io_const WriteOk) no_settings))) = []"
  using activate_mode_unknown_mode
          [of "''Strobe''" False
              "start_thread (RainbowThread 10) (init_state (io_const WriteOk) no_settings)"]
  by (simp add: init_state_def start_thread_def stop_active_thread_def live_def)

lemma update_color_ok:
  assumes "i < length (threads s)" "0 \<le> k" "k < int (length cs)"
  shows "threads (update_color i mk cs k s) ! i
           = (threads s ! i)\<lparr>anim := mk cs ((k + 1) mod int (length cs))\<rparr>"
    and "attempts (update_color i mk cs k s)
           = attempts s @ [(cs ! nat k, io s (length (attempts s)))]"
    and "stderr (update_color i mk cs k s) = stderr (write_color (cs ! nat k) s)"
    and "length (threads (update_color i mk cs k s)) = length (threads s)"
    and "io (update_color i mk cs k s) = io s"
    and "active_thread (update_color i mk cs k s) = active_thread s"
  using assms
  by (simp_all add: update_color_def py_index_def Let_def set_thread_def write_color_frame
      write_color_attempts)

text \<open>
  Claim C5, as amended. A failed hardware write is not surfaced to the caller:
  \<open>write_color\<close> catches the error, prints one line on stderr, leaves the last hardware
  colour as it was and returns; a direct \<open>set_color\<close> then returns normally too, with no
  exception and no result. In an animation tick the same failure is only logged as well,
  and the loop goes on.
\<close>

theorem write_failure_logged_not_raised:
  assumes "io s (length (attempts s)) \<noteq> WriteOk"
  shows "(duration_ms = None \<or> duration_ms = Some 0 \<or> current_hardware_color s = None \<longrightarrow>
            set_color col_hex duration_ms s = (None, write_color col_hex s))
         \<and> length (stderr (write_color col_hex s)) = Suc (length (stderr s))
         \<and> current_hardware_color (write_color col_hex s) = current_hardware_color s
         \<and> (live s i \<and> \<not> stop_event (threads s ! i) \<and> well_indexed (anim (threads s ! i)) \<longrightarrow>
               live (thread_iteration i s) i
               \<and> \<not> stop_event (threads (thread_iteration i s) ! i)
               \<and> length (stderr (thread_iteration i s)) = Suc (length (stderr s)))"
proof -
  have direct: "duration_ms = None \<or> duration_ms = Some 0 \<or> current_hardware_color s = None \<longrightarrow>
      set_color col_hex duration_ms s = (None, write_color col_hex s)"
    by (auto simp: set_color_def split: option.splits)
  have log: "length (stderr (write_color c s)) = Suc (length (stderr s))" for c
    using assms by (simp add: write_color_stderr)
  have cur: "current_hardware_color (write_color col_hex s) = current_hardware_color s"
    using assms by (simp add: write_color_current)
  have tick: "live (thread_iteration i s) i
               \<and> \<not> stop_event (threads (thread_iteration i s) ! i)
               \<and> length (stderr (thread_iteration i s)) = Suc (length (stderr s))"
    if l: "live s i" and ns: "\<not> stop_event (threads s ! i)"
      and wi: "well_indexed (anim (threads s ! i))"
  proof (cases "anim (threads s ! i)")
    case (Rainbow h)
    then show ?thesis
      using l ns log [of "qcolor_hsv_name (h mod 360)"]
      by (simp add: thread_iteration_def live_def Let_def set_thread_def write_color_frame)
  next
    case (NewYears cs k)
    then show ?thesis
      using l ns wi log [of "cs ! nat k"]
      by (simp add: thread_iteration_def live_def well_indexed_def update_color_ok)
  next
    case (Police cs k)
    then show ?thesis
      using l ns wi log [of "cs ! nat k"]
      by (simp add: thread_iteration_def live_def well_indexed_def update_color_ok)
  qed
  show ?thesis
    using direct log cur tick by blast
qed

theorem write_failure_logged_not_raised_witness:
  "io (start_thread (PoliceThread 100) (init_state (io_const PermissionDenied) no_settings))
      (length (attempts
         (start_thread (PoliceThread 100) (init_state (io_const PermissionDenied) no_settings))))
     \<noteq> WriteOk
   \<and> live (start_thread (PoliceThread 100) (init_state (io_const PermissionDenied) no_settings)) 0
   \<and> well_indexed (anim (threads
        (start_thread (PoliceThread 100) (init_state (io_const PermissionDenied) no_settings)) ! 0))
   \<and> set_color ''ff0000'' None
        (start_thread (PoliceThread 100) (init_state (io_const PermissionDenied) no_settings))
      = (None, write_color ''ff0000''
           (start_thread (PoliceThread 100) (init_state (io_const PermissionDenied) no_settings)))
   \<and> live (thread_iteration 0
        (start_thread (PoliceThread 100) (init_state (io_const PermissionDenied) no_settings))) 0
   \<and> length (stderr (thread_iteration 0
        (start_thread (PoliceThread 100) (init_state (io_const PermissionDenied) no_settings))))
      = Suc (length (stderr
        (start_thread (PoliceThread 100) (init_state (io_const PermissionDenied) no_settings))))"
  using write_failure_logged_not_raised
          [of "start_thread (PoliceThread 100) (init_state (io_const PermissionDenied) no_settings)"
              None "''ff0000''" 0]
  by (simp add: init_state_def start_thread_def stop_active_thread_def live_def io_const_def
      PoliceThread_def well_indexed_def)

text \<open>
  The claim as it was stated fails: a direct \<open>set_color\<close> whose write is refused returns to
  its caller exactly what it returns when the write succeeds.
\<close>

theorem failed_static_write_not_surfaced:
  "io (init_state (io_const PermissionDenied) no_settings)
      (length (attempts (init_state (io_const PermissionDenied) no_settings))) = PermissionDenied
   \<and> set_color ''ff0000'' None (init_state (io_const PermissionDenied) no_settings)
      = (None, (init_state (io_const PermissionDenied) no_settings)
                 \<lparr>attempts := [(''ff0000'', PermissionDenied)], stderr := [ErrPermission]\<rparr>)
   \<and> fst (set_color ''ff0000'' None (init_state (io_const PermissionDenied) no_settings))
      = fst (set_color ''ff0000'' None (init_state (io_const WriteOk) no_settings))"
  by (simp add: set_color_def init_state_def write_color_def io_const_def)

section \<open>Animation variants\<close>

lemma map_upt_shift:
  "f 0 # map (\<lambda>j. f (Suc j)) [0..<n] = map f [0..<Suc n]"
  by (induction n) simp_all

lemma thread_iteration_cycle:
  assumes "i < length (threads s)" "running (threads s ! i)" "\<not> stop_event (threads s ! i)"
    and "anim (threads s ! i) = mk cs k" "mk = NewYears \<or> mk = Police"
    and "0 \<le> k" "k < int (length cs)"
  shows "threads (thread_iteration i s) ! i
           = (threads s ! i)\<lparr>anim := mk cs ((k + 1) mod int (length cs))\<rparr>"
    and "attempts (thread_iteration i s) = attempts s @ [(cs ! nat k, io s (length (attempts s)))]"
    and "length (threads (thread_iteration i s)) = length (threads s)"
  using assms by (auto simp: thread_iteration_def update_color_ok)

lemma cycle_iterations:
  assumes "i < length (threads s)" "running (threads s ! i)" "\<not> stop_event (threads s ! i)"
    and "anim (threads s ! i) = mk [A, B] k" "mk = NewYears \<or> mk = Police"
    and "k = 0 \<or> k = 1"
  shows "map fst (attempts (iterations n i s))
           = map fst (attempts s) @ map (\<lambda>j. if even (nat k + j) then A else B) [0..<n]"
  using assms
proof (induction n arbitrary: s k)
  case 0
  then show ?case by simp
next
  case (Suc n)
  let ?s = "thread_iteration i s"
  let ?k = "(k + 1) mod 2"
  have k: "0 \<le> k" "k < int (length [A, B])"
    using Suc.prems(6) by auto
  have th: "threads ?s ! i = (threads s ! i)\<lparr>anim := mk [A, B] ?k\<rparr>"
    using thread_iteration_cycle(1) [OF Suc.prems(1-5) k] by simp
  have at: "attempts ?s = attempts s @ [([A, B] ! nat k, io s (length (attempts s)))]"
    using thread_iteration_cycle(2) [OF Suc.prems(1-5) k] .
  have len: "length (threads ?s) = length (threads s)"
    using thread_iteration_cycle(3) [OF Suc.prems(1-5) k] .
  have k': "?k = 0 \<or> ?k = 1"
    using Suc.prems(6) by auto
  have ih: "map fst (attempts (iterations n i ?s))
      = map fst (attempts ?s) @ map (\<lambda>j. if even (nat ?k + j) then A else B) [0..<n]"
    by (rule Suc.IH [OF _ _ _ _ Suc.prems(5) k'])
       (use Suc.prems th len in simp_all)
  have par: "even (nat ?k + j) = even (nat k + Suc j)" for j
    using Suc.prems(6) by auto
  have first: "[A, B] ! nat k = (if even (nat k + 0) then A else B)"
    using Suc.prems(6) by auto
  have tl: "map (\<lambda>j. if even (nat ?k + j) then A else B) [0..<n]
      = map (\<lambda>j. if even (nat k + Suc j) then A else B) [0..<n]"
    by (simp only: par)
  have "map fst (attempts (iterations (Suc n) i s))
      = map fst (attempts ?s) @ map (\<lambda>j. if even (nat ?k + j) then A else B) [0..<n]"
    using ih by simp
  also have "\<dots> = map fst (attempts s) @ (([A, B] ! nat k)
          # map (\<lambda>j. if even (nat k + Suc j) then A else B) [0..<n])"
    unfolding tl by (simp add: at)
  also have "([A, B] ! nat k) # map (\<lambda>j. if even (nat k + Suc j) then A else B) [0..<n]
      = map (\<lambda>j. if even (nat k + j) then A else B) [0..<Suc n]"
    unfolding first by (rule map_upt_shift)
  finally show ?case .
qed

lemma start_thread_new:
  "threads (start_thread th s) ! length (threads s) = th\<lparr>running := True\<rparr>"
  "length (threads (start_thread th s)) = Suc (length (threads s))"
  "attempts (start_thread th s) = attempts s"
  "active_thread (start_thread th s) = Some (length (threads s))"
  by (simp_all add: start_thread_def Let_def stop_active_thread_frame nth_append)

lemma seconds_500: "seconds_of_ms 500 = Dbl 4503599627370496 (- 53)"
  by code_simp

lemma seconds_100: "seconds_of_ms 100 = Dbl 7205759403792794 (- 56)"
  by code_simp

lemma val_Dbl_neg: "val (Dbl m (- numeral e)) = of_int m / 2 ^ numeral e"
  by (simp add: val_def power_int_minus_divide)

text \<open>
  Claim C8. A two-colour alternation with the ordered pair \<open>[A, B]\<close> keeps a cursor that
  starts at the first colour; a tick writes \<open>colors[cursor]\<close> and then sets the cursor to
  \<open>(cursor + 1) mod 2\<close>, so \<open>n\<close> ticks write \<open>A, B, A, B, ...\<close> starting with \<open>A\<close>. The
  New Year's instance is red and green at 500 ms (half a second, exactly), the Police
  instance is red and blue at 100 ms (the float nearest to a tenth of a second).
\<close>

theorem two_colour_alternation:
  "(i < length (threads s) \<and> running (threads s ! i) \<and> \<not> stop_event (threads s ! i)
      \<and> (anim (threads s ! i) = NewYears [A, B] 0 \<or> anim (threads s ! i) = Police [A, B] 0)
    \<longrightarrow> map fst (attempts (iterations n i s))
          = map fst (attempts s) @ map (\<lambda>j. if even j then A else B) [0..<n])
   \<and> (i < length (threads s) \<and> running (threads s ! i) \<and> \<not> stop_event (threads s ! i)
      \<and> anim (threads s ! i) = mk [A, B] k \<and> (mk = NewYears \<or> mk = Police)
      \<and> (k = 0 \<or> k = 1)
    \<longrightarrow> map fst (attempts (thread_iteration i s)) = map fst (attempts s) @ [[A, B] ! nat k]
        \<and> anim (threads (thread_iteration i s) ! i) = mk [A, B] ((k + 1) mod 2))
   \<and> activate_mode ''New Year's'' b s
        = (None, start_thread (NewYearsThread 500) (stop_active_thread s))
   \<and> anim (NewYearsThread 500) = NewYears [''ff0000'', ''00ff00''] 0
   \<and> val (delay_s (NewYearsThread 500)) = 1 / 2
   \<and> activate_mode ''Police'' b s
        = (None, start_thread (PoliceThread 100) (stop_active_thread s))
   \<and> anim (PoliceThread 100) = Police [''ff0000'', ''0000ff''] 0
   \<and> \<bar>val (delay_s (PoliceThread 100)) - 1 / 10\<bar> < 1 / 10 ^ 17"
proof -
  have run: "map fst (attempts (iterations n i s))
          = map fst (attempts s) @ map (\<lambda>j. if even j then A else B) [0..<n]"
    if "i < length (threads s)" "running (threads s ! i)" "\<not> stop_event (threads s ! i)"
      "anim (threads s ! i) = NewYears [A, B] 0 \<or> anim (threads s ! i) = Police [A, B] 0"
  proof -
    from that(4) obtain mk where mk: "anim (threads s ! i) = mk [A, B] 0"
      "mk = NewYears \<or> mk = Police"
      by auto
    show ?thesis
      using cycle_iterations [OF that(1-3) mk, of n] by simp
  qed
  have tick: "map fst (attempts (thread_iteration i s)) = map fst (attempts s) @ [[A, B] ! nat k]
        \<and> anim (threads (thread_iteration i s) ! i) = mk [A, B] ((k + 1) mod 2)"
    if "i < length (threads s)" "running (threads s ! i)" "\<not> stop_event (threads s ! i)"
      "anim (threads s ! i) = mk [A, B] k" "mk = NewYears \<or> mk = Police" "k = 0 \<or> k = 1"
  proof -
    have k: "0 \<le> k" "k < int (length [A, B])"
      using that(6) by auto
    show ?thesis
      using thread_iteration_cycle(1,2) [OF that(1-5) k] by simp
  qed
  have ny: "activate_mode ''New Year's'' b s
        = (None, start_thread (NewYearsThread 500) (stop_active_thread s))"
    by (simp add: activate_mode_def)
  have po: "activate_mode ''Police'' b s
        = (None, start_thread (PoliceThread 100) (stop_active_thread s))"
    by (simp add: activate_mode_def)
  have d1: "val (delay_s (NewYearsThread 500)) = 1 / 2"
    by (simp add: NewYearsThread_def seconds_500 val_Dbl_neg)
  have d2: "\<bar>val (delay_s (PoliceThread 100)) - 1 / 10\<bar> < 1 / 10 ^ 17"
    by (simp add: PoliceThread_def seconds_100 val_Dbl_neg)
  show ?thesis
    using run tick ny po d1 d2
    by (simp add: NewYearsThread_def PoliceThread_def)
qed

lemma upt_4: "[0..<4] = [0, 1, 2, 3]"
  by code_simp

lemma upt_2: "[0..<2] = [0, 1]"
  by code_simp

theorem two_colour_alternation_witness:
  "0 < length (threads (start_thread (NewYearsThread 500) (init_state (io_const WriteOk) no_settings)))
   \<and> running (threads
         (start_thread (NewYearsThread 500) (init_state (io_const WriteOk) no_settings)) ! 0)
   \<and> \<not> stop_event (threads
         (start_thread (NewYearsThread 500) (init_state (io_const WriteOk) no_settings)) ! 0)
   \<and> anim (threads
         (start_thread (NewYearsThread 500) (init_state (io_const WriteOk) no_settings)) ! 0)
       = NewYears [''ff0000'', ''00ff00''] 0
   \<and> map fst (attempts (iterations 4 0
         (start_thread (NewYearsThread 500) (init_state (io_const WriteOk) no_settings))))
       = [''ff0000'', ''00ff00'', ''ff0000'', ''00ff00'']
   \<and> map fst (attempts (thread_iteration 0
         (start_thread (NewYearsThread 500) (init_state (io_const WriteOk) no_settings))))
       = [''ff0000'']"
  using two_colour_alternation
          [where i = 0 and A = "''ff0000''" and B = "''00ff00''" and n = 4 and mk = NewYears
             and k = 0
             and s = "start_thread (NewYearsThread 500) (init_state (io_const WriteOk) no_settings)"]
  by (simp add: init_state_def start_thread_def stop_active_thread_def NewYearsThread_def
      upt_4)

lemma thread_iteration_rainbow:
  assumes "i < length (threads s)" "running (threads s ! i)" "\<not> stop_event (threads s ! i)"
    and "anim (threads s ! i) = Rainbow h"
  shows "threads (thread_iteration i s) ! i = (threads s ! i)\<lparr>anim := Rainbow (h + 1)\<rparr>"
    and "attempts (thread_iteration i s)
           = attempts s @ [(qcolor_hsv_name (h mod 360), io s (length (attempts s)))]"
    and "length (threads (thread_iteration i s)) = length (threads s)"
  using assms
  by (simp_all add: thread_iteration_def Let_def set_thread_def write_color_frame
      write_color_attempts)

lemma rainbow_iterations:
  assumes "i < length (threads s)" "running (threads s ! i)" "\<not> stop_event (threads s ! i)"
    and "anim (threads s ! i) = Rainbow h"
  shows "anim (threads (iterations n i s) ! i) = Rainbow (h + int n)
         \<and> map fst (attempts (iterations n i s))
             = map fst (attempts s) @ map (\<lambda>k. qcolor_hsv_name ((h + int k) mod 360)) [0..<n]"
  using assms
proof (induction n arbitrary: s h)
  case 0
  then show ?case by simp
next
  case (Suc n)
  let ?s = "thread_iteration i s"
  note step = thread_iteration_rainbow [OF Suc.prems]
  have ih: "anim (threads (iterations n i ?s) ! i) = Rainbow (h + 1 + int n)
         \<and> map fst (attempts (iterations n i ?s))
             = map fst (attempts ?s)
                 @ map (\<lambda>k. qcolor_hsv_name ((h + 1 + int k) mod 360)) [0..<n]"
    by (rule Suc.IH) (use Suc.prems step in simp_all)
  have sh: "h + 1 + int k = h + int (Suc k)" for k
    by simp
  have tl: "map (\<lambda>k. qcolor_hsv_name ((h + 1 + int k) mod 360)) [0..<n]
      = map (\<lambda>k. qcolor_hsv_name ((h + int (Suc k)) mod 360)) [0..<n]"
    by (simp only: sh)
  have hd: "qcolor_hsv_name (h mod 360) = qcolor_hsv_name ((h + int 0) mod 360)"
    by simp
  have "map fst (attempts (iterations (Suc n) i s))
      = map fst (attempts s) @ (qcolor_hsv_name ((h + int 0) mod 360)
          # map (\<lambda>k. qcolor_hsv_name ((h + int (Suc k)) mod 360)) [0..<n])"
    using ih unfolding tl by (simp add: step(2))
  also have "qcolor_hsv_name ((h + int 0) mod 360)
          # map (\<lambda>k. qcolor_hsv_name ((h + int (Suc k)) mod 360)) [0..<n]
      = map (\<lambda>k. qcolor_hsv_name ((h + int k) mod 360)) [0..<Suc n]"
    by (rule map_upt_shift)
  finally have wr: "map fst (attempts (iterations (Suc n) i s))
      = map fst (attempts s) @ map (\<lambda>k. qcolor_hsv_name ((h + int k) mod 360)) [0..<Suc n]" .
  have "anim (threads (iterations (Suc n) i s) ! i) = Rainbow (h + int (Suc n))"
    using ih by (simp add: add.commute add.left_commute)
  with wr show ?case by blast
qed

lemma qcolor_hsv_name_0: "qcolor_hsv_name 0 = ''ff0000''"
  by code_simp

text \<open>
  Claim C4, as amended. The hue counter of the Rainbow animation starts at 0 and grows by
  1 on every tick, without reduction; the hue of a tick is the counter modulo 360, which
  lies in \<open>[0, 360)\<close> and comes back to the same value 360 ticks later. Each tick writes
  the HSV to RGB conversion of that hue at full saturation and full value, and hue 0
  gives \<open>ff0000\<close>.
\<close>

theorem rainbow_hue_counter:
  "(i < length (threads s) \<and> running (threads s ! i) \<and> \<not> stop_event (threads s ! i)
      \<and> anim (threads s ! i) = Rainbow h
    \<longrightarrow> anim (threads (iterations n i s) ! i) = Rainbow (h + int n)
        \<and> map fst (attempts (iterations n i s))
            = map fst (attempts s) @ map (\<lambda>k. qcolor_hsv_name ((h + int k) mod 360)) [0..<n])
   \<and> 0 \<le> (h + int k) mod 360 \<and> (h + int k) mod 360 < 360
   \<and> (h + int (k + 360)) mod 360 = (h + int k) mod 360
   \<and> anim (RainbowThread d) = Rainbow 0
   \<and> qcolor_hsv_name 0 = ''ff0000''"
proof -
  have wrap: "(h + int (k + 360)) mod 360 = (h + int k) mod 360"
    by (simp add: add.assoc [symmetric])
  show ?thesis
    using rainbow_iterations [of i s h n] wrap
    by (simp add: RainbowThread_def qcolor_hsv_name_0)
qed

theorem rainbow_hue_counter_witness:
  "0 < length (threads (start_thread (RainbowThread 10) (init_state (io_const WriteOk) no_settings)))
   \<and> running (threads
         (start_thread (RainbowThread 10) (init_state (io_const WriteOk) no_settings)) ! 0)
   \<and> \<not> stop_event (threads
         (start_thread (RainbowThread 10) (init_state (io_const WriteOk) no_settings)) ! 0)
   \<and> anim (threads
         (start_thread (RainbowThread 10) (init_state (io_const WriteOk) no_settings)) ! 0)
       = Rainbow 0
   \<and> anim (threads (iterations 2 0
         (start_thread (RainbowThread 10) (init_state (io_const WriteOk) no_settings))) ! 0)
       = Rainbow 2
   \<and> map fst (attempts (iterations 2 0
         (start_thread (RainbowThread 10) (init_state (io_const WriteOk) no_settings))))
       = [qcolor_hsv_name 0, qcolor_hsv_name 1]"
  using rainbow_hue_counter
          [where i = 0 and h = 0 and n = 2
             and s = "start_thread (RainbowThread 10) (init_state (io_const WriteOk) no_settings)"]
  by (simp add: init_state_def start_thread_def stop_active_thread_def RainbowThread_def
      upt_2)

text \<open>
  The claim as it was stated fails: after 360 ticks the counter itself is 360, outside
  \<open>[0, 360)\<close> and not the 0 it started from.
\<close>

theorem rainbow_hue_counter_leaves_range:
  "anim (threads
      (start_thread (RainbowThread 10) (init_state (io_const WriteOk) no_settings)) ! 0)
     = Rainbow 0
   \<and> anim (threads (iterations 360 0
        (start_thread (RainbowThread 10) (init_state (io_const WriteOk) no_settings))) ! 0)
     = Rainbow 360"
  using rainbow_iterations
          [where i = 0 and h = 0 and n = 360
             and s = "start_thread (RainbowThread 10) (init_state (io_const WriteOk) no_settings)"]
  by (simp add: init_state_def start_thread_def stop_active_thread_def RainbowThread_def)

section \<open>The animation scheduler: one live thread\<close>

lemma py_sleep_frame:
  "threads (snd (py_sleep d s)) = threads s"
  "active_thread (snd (py_sleep d s)) = active_thread s"
  by (simp_all add: py_sleep_def)

lemma transition_loop_frame:
  "threads (snd (transition_loop c0 c1 d is s)) = threads s
   \<and> active_thread (snd (transition_loop c0 c1 d is s)) = active_thread s"
proof (induction "is" arbitrary: s)
  case Nil
  then show ?case by simp
next
  case (Cons i rest)
  obtain r0 g0 b0 r1 g1 b1 where c: "c0 = (r0, g0, b0)" "c1 = (r1, g1, b1)"
    by (cases c0, cases c1) auto
  show ?case
    using Cons.IH
    by (simp add: c Let_def py_sleep_def write_color_frame split: prod.split option.split)
qed

lemma set_color_frame:
  "threads (snd (set_color c d s)) = threads s"
  "active_thread (snd (set_color c d s)) = active_thread s"
  by (simp_all add: set_color_def Let_def write_color_frame transition_loop_frame
      split: option.split sum.split)

lemma live_cong:
  "threads s' = threads s \<Longrightarrow> live s' = live s"
  by (simp add: live_def fun_eq_iff)

lemma owned_cong:
  "threads s' = threads s \<Longrightarrow> active_thread s' = active_thread s \<Longrightarrow> owned s' = owned s"
  using live_cong [of s' s] by (simp add: owned_def)

lemma stop_active_thread_none_live:
  assumes "owned s"
  shows "\<not> live (stop_active_thread s) i"
proof (cases "active_thread s")
  case None
  then show ?thesis
    using assms by (auto simp: owned_def stop_active_thread_def)
next
  case (Some a)
  show ?thesis
  proof (cases "i = a")
    case True
    then show ?thesis
      using Some
      by (auto simp: live_def stop_active_thread_def thread_stop_def set_thread_def)
  next
    case False
    then have "live (stop_active_thread s) i = live s i"
      using Some
      by (auto simp: live_def stop_active_thread_def thread_stop_def set_thread_def)
    then show ?thesis
      using assms Some False by (auto simp: owned_def)
  qed
qed

lemma owned_stop_active_thread: "owned s \<Longrightarrow> owned (stop_active_thread s)"
  by (simp add: owned_def stop_active_thread_none_live)

lemma live_start_thread:
  assumes "owned s"
  shows "live (start_thread th s) i \<longleftrightarrow> i = length (threads s)"
proof -
  let ?s = "stop_active_thread s"
  have none: "\<not> live ?s j" for j
    using assms by (rule stop_active_thread_none_live)
  have len: "length (threads ?s) = length (threads s)"
    by (simp add: stop_active_thread_frame)
  have "live (start_thread th s) i \<longleftrightarrow> i = length (threads ?s)"
    using none [of i]
    by (auto simp: live_def start_thread_def Let_def nth_append)
  then show ?thesis
    by (simp add: len)
qed

lemma owned_start_thread: "owned s \<Longrightarrow> owned (start_thread th s)"
  by (simp add: owned_def live_start_thread start_thread_new)

lemma nth_update_cases:
  "xs[i := x] ! j = (if i = j \<and> i < length xs then x else xs ! j)"
  by (cases "i < length xs") (simp_all add: nth_list_update list_update_beyond)

lemma live_update_color:
  "live (update_color i mk cs k s) j \<Longrightarrow> live s j"
  by (auto simp: update_color_def live_def set_thread_def Let_def write_color_frame
      nth_update_cases split: sum.splits if_splits)

lemma live_thread_iteration:
  "live (thread_iteration i s) j \<Longrightarrow> live s j"
proof (cases "i < length (threads s) \<and> running (threads s ! i) \<and> \<not> stop_event (threads s ! i)")
  case False
  assume "live (thread_iteration i s) j"
  with False show ?thesis
    by (auto simp: thread_iteration_def)
next
  case True
  assume l: "live (thread_iteration i s) j"
  show ?thesis
  proof (cases "anim (threads s ! i)")
    case (Rainbow h)
    with True l show ?thesis
      by (auto simp: thread_iteration_def live_def set_thread_def Let_def write_color_frame
          nth_update_cases split: if_splits)
  next
    case (NewYears cs k)
    with True l show ?thesis
      by (auto simp: thread_iteration_def dest: live_update_color)
  next
    case (Police cs k)
    with True l show ?thesis
      by (auto simp: thread_iteration_def dest: live_update_color)
  qed
qed

lemma active_thread_iteration:
  "active_thread (thread_iteration i s) = active_thread s"
  by (auto simp: thread_iteration_def update_color_def set_thread_def Let_def write_color_frame
      split: anim.splits sum.splits)

lemma owned_thread_iteration: "owned s \<Longrightarrow> owned (thread_iteration i s)"
  by (auto simp: owned_def active_thread_iteration dest: live_thread_iteration)

lemma owned_set_color: "owned s \<Longrightarrow> owned (snd (set_color c d s))"
  by (simp add: owned_cong [OF set_color_frame])

lemma owned_set_value: "owned (set_value k v s) = owned s"
  by (rule owned_cong) (simp_all add: set_value_def)

lemma owned_activate_mode: "owned s \<Longrightarrow> owned (snd (activate_mode m b s))"
  by (simp add: activate_mode_def Let_def owned_set_color owned_start_thread
      owned_stop_active_thread)

lemma owned_apply_static_color: "owned s \<Longrightarrow> owned (snd (apply_static_color c s))"
proof -
  assume "owned s"
  then have "owned (snd (set_color c (Some STATIC_DURATION_MS) (stop_active_thread s)))"
    by (simp add: owned_set_color owned_stop_active_thread)
  then show ?thesis
    by (auto simp: apply_static_color_def Let_def owned_set_value
        split: prod.split option.split)
qed

lemma owned_exit_app: "owned s \<Longrightarrow> owned (exit_app s)"
proof -
  assume "owned s"
  then have "owned (stop_active_thread s)"
    by (rule owned_stop_active_thread)
  moreover have "owned (exit_app s) = owned (stop_active_thread s)"
    by (rule owned_cong) (simp_all add: exit_app_def)
  ultimately show ?thesis by simp
qed

lemma reachable_owned: "reachable s \<Longrightarrow> owned s"
proof (induction rule: reachable.induct)
  case (r_init env stored)
  then show ?case by (simp add: owned_def live_def init_state_def)
next
  case (r_on_mode s m)
  then show ?case
    by (simp add: on_mode_def owned_activate_mode owned_set_value)
next
  case (r_load_settings s)
  then show ?case
    by (simp add: load_settings_def owned_activate_mode)
qed (simp_all add: owned_set_color owned_activate_mode owned_apply_static_color
       owned_start_thread owned_stop_active_thread owned_exit_app owned_thread_iteration)

text \<open>
  Claim C3. At most one animation thread is live at any instant. In every state the
  controller can reach by its operations (starting and stopping a thread, activating a
  mode, applying a static colour, exit, and the passes of the threads themselves), two
  live threads are the same thread, and it is the one held in \<open>active_thread\<close>.
  \<open>stop_active_thread\<close> leaves no thread live; \<open>start_thread\<close>, and with it every branch of
  \<open>activate_mode\<close>, has stopped and joined the thread that ran before the new one, the only
  live thread afterwards, begins.
\<close>

theorem single_live_animation:
  assumes "reachable s"
  shows "(\<forall>i j. live s i \<and> live s j \<longrightarrow> i = j)
         \<and> (\<forall>i. live s i \<longrightarrow> active_thread s = Some i)
         \<and> (\<forall>i. \<not> live (stop_active_thread s) i)
         \<and> (\<forall>th i. live (start_thread th s) i \<longleftrightarrow> i = length (threads s))
         \<and> (\<forall>m b th i. live (snd (activate_mode m b s)) i \<longrightarrow>
               i = length (threads s) \<and> \<not> live s i)"
proof -
  have o: "owned s"
    using assms by (rule reachable_owned)
  have one: "\<forall>i j. live s i \<and> live s j \<longrightarrow> i = j"
    using o by (metis owned_def option.inject)
  have act: "\<forall>i. live s i \<longrightarrow> active_thread s = Some i"
    using o by (simp add: owned_def)
  have stop: "\<forall>i. \<not> live (stop_active_thread s) i"
    using o by (simp add: stop_active_thread_none_live)
  have start: "\<forall>th i. live (start_thread th s) i \<longleftrightarrow> i = length (threads s)"
    using o by (simp add: live_start_thread)
  have mode: "i = length (threads s) \<and> \<not> live s i"
    if l: "live (snd (activate_mode m b s)) i" for m b i
  proof -
    let ?s = "stop_active_thread s"
    have os: "owned ?s"
      using o by (rule owned_stop_active_thread)
    have none: "\<not> live ?s j" for j
      using o by (rule stop_active_thread_none_live)
    have len: "length (threads ?s) = length (threads s)"
      by (simp add: stop_active_thread_frame)
    have "i = length (threads s)"
      using l none [of i] live_start_thread [OF os] len
      by (auto simp: activate_mode_def Let_def live_cong [OF set_color_frame(1)]
          split: if_splits)
    then show ?thesis
      by (simp add: live_def)
  qed
  show ?thesis
    using one act stop start mode by blast
qed

theorem single_live_animation_witness:
  "live (snd (activate_mode ''Police'' False
      (snd (activate_mode ''Rainbow'' False (init_state (io_const WriteOk) no_settings))))) 1
   \<and> \<not> live (snd (activate_mode ''Police'' False
      (snd (activate_mode ''Rainbow'' False (init_state (io_const WriteOk) no_settings))))) 0
   \<and> active_thread (snd (activate_mode ''Police'' False
      (snd (activate_mode ''Rainbow'' False (init_state (io_const WriteOk) no_settings)))))
     = Some 1
   \<and> live (snd (activate_mode ''Rainbow'' False (init_state (io_const WriteOk) no_settings))) 0"
proof -
  have r: "reachable (snd (activate_mode ''Police'' False
      (snd (activate_mode ''Rainbow'' False (init_state (io_const WriteOk) no_settings)))))"
    by (intro r_activate_mode r_init)
  have l: "live (snd (activate_mode ''Police'' False
      (snd (activate_mode ''Rainbow'' False (init_state (io_const WriteOk) no_settings))))) 1"
    by (simp add: activate_mode_def start_thread_def stop_active_thread_def thread_stop_def
        set_thread_def init_state_def live_def Let_def)
  have l0: "live (snd (activate_mode ''Rainbow'' False (init_state (io_const WriteOk) no_settings))) 0"
    by (simp add: activate_mode_def start_thread_def stop_active_thread_def thread_stop_def
        set_thread_def init_state_def live_def Let_def)
  show ?thesis
    using single_live_animation [OF r] l l0 by auto
qed

section \<open>Hex colours\<close>

lemma hexval_table:
  "hexval c =
     map_of [(CHR ''0'', 0), (CHR ''1'', 1), (CHR ''2'', 2), (CHR ''3'', 3), (CHR ''4'', 4),
       (CHR ''5'', 5), (CHR ''6'', 6), (CHR ''7'', 7), (CHR ''8'', 8), (CHR ''9'', 9),
       (CHR ''a'', 10), (CHR ''b'', 11), (CHR ''c'', 12), (CHR ''d'', 13), (CHR ''e'', 14),
       (CHR ''f'', 15), (CHR ''A'', 10), (CHR ''B'', 11), (CHR ''C'', 12), (CHR ''D'', 13),
       (CHR ''E'', 14), (CHR ''F'', 15)] c"
proof -
  have "[0 ..< 16] = [0, 1, 2, 3, 4, 5, 6, 7, 8, 9, 10, 11, 12, 13, 14, 15 :: nat]"
    by code_simp
  moreover have "[10 ..< 16] = [10, 11, 12, 13, 14, 15 :: nat]"
    by code_simp
  ultimately show ?thesis
    by (simp add: hexval_def)
qed

lemma hexval_cases:
  assumes "hexval c = Some v"
  shows "v < 16" "hexdigit v = lower_char c" "\<not> py_isspace c" "c \<noteq> CHR ''-''"
    "c \<noteq> CHR ''+''" "c \<noteq> CHR ''_''" "c \<noteq> CHR ''x''" "c \<noteq> CHR ''X''"
  using assms
  by (auto simp: hexval_table hexdigit_def lower_char_def py_isspace_def split: if_splits)

lemma py_int16_two:
  assumes "hexval a = Some va" "hexval b = Some vb"
  shows "py_int16 [a, b] = Inr (int (16 * va + vb))"
proof -
  note A = hexval_cases [OF assms(1)] and B = hexval_cases [OF assms(2)]
  have strip: "py_strip [a, b] = [a, b]"
    using A B by (simp add: py_strip_def)
  show ?thesis
    using A B assms by (simp add: py_int16_def strip Let_def)
qed

lemma hexdigit_0: "hexdigit 0 = CHR ''0''"
  by (simp add: hexdigit_def)

lemma fmt_02x_two:
  assumes "va < 16" "vb < 16"
  shows "fmt_02x (int (16 * va + vb)) = [hexdigit va, hexdigit vb]"
proof (cases "va = 0")
  case True
  then show ?thesis
    using assms by (simp add: fmt_02x_def to_hex.simps [of vb] hexdigit_0 del: of_nat_add of_nat_mult)
next
  case False
  have d: "(16 * va + vb) div 16 = va" "(16 * va + vb) mod 16 = vb"
    using assms by simp_all
  have "to_hex (16 * va + vb) = [hexdigit va, hexdigit vb]"
    using False assms by (simp add: to_hex.simps [of "16 * va + vb"] to_hex.simps [of va] d)
  then show ?thesis
    by (simp add: fmt_02x_def del: of_nat_add of_nat_mult)
qed

lemma channel_range:
  assumes "va < 16" "vb < 16"
  shows "0 \<le> int (16 * va + vb) \<and> int (16 * va + vb) \<le> 255"
  using assms by simp

lemma length6:
  assumes "length s = 6"
  obtains a b c d e f where "s = [a, b, c, d, e, f]"
  using assms by (auto simp: length_Suc_conv numeral_eq_Suc)

lemma hex6_parse:
  assumes "hex6 s"
  shows "\<exists>r g b. hex_to_rgb s = Inr (r, g, b) \<and> rgb_to_hex (r, g, b) = py_lower s
           \<and> 0 \<le> r \<and> r \<le> 255 \<and> 0 \<le> g \<and> g \<le> 255 \<and> 0 \<le> b \<and> b \<le> 255"
proof -
  from assms have len: "length s = 6" and hv: "\<forall>c \<in> set s. hexval c \<noteq> None"
    by (simp_all add: hex6_def)
  from len obtain a b c d e f where s: "s = [a, b, c, d, e, f]"
    by (rule length6)
  from hv s obtain va vb vc vd ve vf where
    v: "hexval a = Some va" "hexval b = Some vb" "hexval c = Some vc"
       "hexval d = Some vd" "hexval e = Some ve" "hexval f = Some vf"
    by auto
  note lt = v [THEN hexval_cases(1)] and dg = v [THEN hexval_cases(2)]
  have p: "py_slice s 0 2 = [a, b]" "py_slice s 2 4 = [c, d]" "py_slice s 4 6 = [e, f]"
    by (simp_all add: s py_slice_def)
  have parse: "hex_to_rgb s
      = Inr (int (16 * va + vb), int (16 * vc + vd), int (16 * ve + vf))"
    by (simp add: hex_to_rgb_def p py_int16_two [OF v(1,2)] py_int16_two [OF v(3,4)]
        py_int16_two [OF v(5,6)])
  have fmt: "rgb_to_hex (int (16 * va + vb), int (16 * vc + vd), int (16 * ve + vf))
      = py_lower s"
    by (simp add: rgb_to_hex_def fmt_02x_two lt dg s py_lower_def del: of_nat_add of_nat_mult)
  have rng: "0 \<le> int (16 * va + vb) \<and> int (16 * va + vb) \<le> 255"
    "0 \<le> int (16 * vc + vd) \<and> int (16 * vc + vd) \<le> 255"
    "0 \<le> int (16 * ve + vf) \<and> int (16 * ve + vf) \<le> 255"
    using lt by (simp_all add: channel_range del: of_nat_add of_nat_mult)
  show ?thesis
    using parse fmt rng by blast
qed

lemma lower_hex6_hex6:
  assumes "lower_hex6 s"
  shows "hex6 s \<and> py_lower s = s"
proof -
  have c: "hexval c \<noteq> None \<and> lower_char c = c" if "c \<in> set ''0123456789abcdef''" for c
    using that by (auto simp: hexval_table lower_char_def)
  from assms have "length s = 6" "\<forall>c \<in> set s. hexval c \<noteq> None \<and> lower_char c = c"
    using c by (auto simp: lower_hex6_def)
  then show ?thesis
    by (simp add: hex6_def py_lower_def map_idI)
qed

text \<open>
  Claim C9. For every string \<open>s\<close> of six lowercase hex digits, converting \<open>s\<close> to an RGB
  triple and back gives \<open>s\<close> again: \<open>rgb_to_hex(hex_to_rgb(s)) == s\<close>.
\<close>

theorem hex_round_trip:
  assumes "lower_hex6 s"
  shows "\<exists>c. hex_to_rgb s = Inr c \<and> rgb_to_hex c = s"
  using hex6_parse [of s] lower_hex6_hex6 [OF assms] by auto

theorem hex_round_trip_witness:
  "lower_hex6 ''ff7f00'' \<and> hex_to_rgb ''ff7f00'' = Inr (255, 127, 0)
   \<and> rgb_to_hex (255, 127, 0) = ''ff7f00''"
proof -
  have l: "lower_hex6 ''ff7f00''"
    by (simp add: lower_hex6_def)
  have p: "hex_to_rgb ''ff7f00'' = Inr (255, 127, 0)"
    by code_simp
  show ?thesis
    using hex_round_trip [OF l] l p by simp
qed

section \<open>Rounding to the nearest integer\<close>

lemma bitlen_bounds:
  "0 < n \<Longrightarrow> 1 \<le> bitlen n \<and> 2 ^ nat (bitlen n - 1) \<le> n \<and> n < 2 ^ nat (bitlen n)"
proof (induction n rule: bitlen.induct)
  case (1 n)
  show ?case
  proof (cases "n = 1")
    case True
    then show ?thesis
      by (simp add: bitlen.simps [of 1] bitlen.simps [of 0])
  next
    case False
    with "1.prems" have h: "0 < n div 2" "\<not> n \<le> 0"
      by simp_all
    from "1.IH" [OF h(2) h(1)]
    have ih: "1 \<le> bitlen (n div 2)" "2 ^ nat (bitlen (n div 2) - 1) \<le> n div 2"
      "n div 2 < 2 ^ nat (bitlen (n div 2))"
      by simp_all
    have b: "bitlen n = 1 + bitlen (n div 2)"
      using h(2) by (simp add: bitlen.simps [of n])
    define j where "j = nat (bitlen (n div 2) - 1)"
    have e: "nat (bitlen (n div 2)) = Suc j" "nat (bitlen n - 1) = Suc j"
      "nat (bitlen n) = Suc (Suc j)"
      using ih(1) b by (simp_all add: j_def)
    have lo: "2 * 2 ^ j \<le> n"
      using ih(2) unfolding j_def [symmetric] by linarith
    have hi: "n < 2 * (2 * 2 ^ j)"
      using ih(3) unfolding e(1) by simp
    show ?thesis
      using b ih(1) lo hi unfolding e by simp
  qed
qed

lemma rne_of_int [simp]: "rne (of_int z) = z"
  by (simp add: rne_def)

lemma rne_floor_le: "\<lfloor>x\<rfloor> \<le> rne x"
  by (simp add: rne_def)

lemma rne_le_floor_Suc: "rne x \<le> \<lfloor>x\<rfloor> + 1"
  by (simp add: rne_def)

lemma rne_error: "\<bar>of_int (rne x) - x\<bar> \<le> 1 / 2"
proof -
  have "of_int \<lfloor>x\<rfloor> \<le> x" "x < of_int \<lfloor>x\<rfloor> + 1"
    by linarith+
  then show ?thesis
    by (auto simp: rne_def abs_le_iff)
qed

lemma rne_mono:
  assumes "x \<le> y"
  shows "rne x \<le> rne y"
proof (cases "\<lfloor>x\<rfloor> = \<lfloor>y\<rfloor>")
  case True
  then have "x - of_int \<lfloor>x\<rfloor> \<le> y - of_int \<lfloor>y\<rfloor>"
    using assms by simp
  then show ?thesis
    using True by (auto simp: rne_def)
next
  case False
  then have "\<lfloor>x\<rfloor> < \<lfloor>y\<rfloor>"
    using floor_mono [OF assms] by linarith
  then have "rne x \<le> \<lfloor>y\<rfloor>"
    using rne_le_floor_Suc [of x] by linarith
  then show ?thesis
    using rne_floor_le [of y] by linarith
qed

lemma round_half_even_div_rne:
  assumes "0 < D"
  shows "round_half_even_div N D = rne (of_int N / of_int D)"
proof -
  have fl: "\<lfloor>(of_int N :: rat) / of_int D\<rfloor> = N div D"
    by (simp add: floor_divide_of_int_eq)
  have "(of_int N :: rat) = of_int (N div D) * of_int D + of_int (N mod D)"
    by (metis of_int_add of_int_mult div_mult_mod_eq)
  then have fr: "(of_int N :: rat) / of_int D - of_int (N div D) = of_int (N mod D) / of_int D"
    using assms by (simp add: field_simps)
  have c1: "(of_int (N mod D) / (of_int D :: rat) < 1 / 2) = (2 * (N mod D) < D)"
  proof -
    have "(of_int (N mod D) / (of_int D :: rat) < 1 / 2)
        = ((of_int (2 * (N mod D)) :: rat) < of_int D)"
      using assms by (simp add: field_simps)
    then show ?thesis
      by (simp only: of_int_less_iff)
  qed
  have c2: "(1 / 2 < of_int (N mod D) / (of_int D :: rat)) = (D < 2 * (N mod D))"
  proof -
    have "(1 / 2 < of_int (N mod D) / (of_int D :: rat))
        = ((of_int D :: rat) < of_int (2 * (N mod D)))"
      using assms by (simp add: field_simps)
    then show ?thesis
      by (simp only: of_int_less_iff)
  qed
  show ?thesis
    by (simp only: round_half_even_div_def rne_def Let_def fl fr c1 c2)
qed

section \<open>Binades and rounding to binary64\<close>

lemma two_powi_pos [simp]: "0 < (2 :: rat) powi k"
  by simp

lemma two_powi_add: "(2 :: rat) powi (a + b) = 2 powi a * 2 powi b"
  by (simp add: power_int_add)

lemma two_powi_diff: "(2 :: rat) powi (a - b) = 2 powi a / 2 powi b"
  by (simp add: power_int_diff)

lemma two_powi_mono: "a \<le> b \<Longrightarrow> (2 :: rat) powi a \<le> 2 powi b"
  by (rule power_int_increasing) simp_all

lemma two_powi_nat: "0 \<le> k \<Longrightarrow> (2 :: rat) powi k = 2 ^ nat k"
  by (simp add: power_int_def)

lemma two_powi_Suc: "(2 :: rat) powi (k + 1) = 2 * 2 powi k"
  by (simp add: two_powi_add)

lemma binade_test:
  assumes "0 < d"
  shows "(d * 2 ^ nat k \<le> n * 2 ^ nat (- k))
           = ((2 :: rat) powi k \<le> of_int n / of_int d)"
proof (cases "0 \<le> k")
  case True
  have "(d * 2 ^ nat k \<le> n) = ((of_int (d * 2 ^ nat k) :: rat) \<le> of_int n)"
    by (simp only: of_int_le_iff)
  also have "\<dots> = ((2 :: rat) ^ nat k \<le> of_int n / of_int d)"
    using assms by (simp add: field_simps)
  finally show ?thesis
    using True by (simp add: two_powi_nat)
next
  case False
  have "(2 :: rat) powi k = 1 / 2 powi (- k)"
    using power_int_minus_divide [of "2 :: rat" "- k"] by simp
  with False have p: "(2 :: rat) powi k = 1 / 2 ^ nat (- k)"
    by (simp add: two_powi_nat)
  have "(d \<le> n * 2 ^ nat (- k)) = ((of_int d :: rat) \<le> of_int (n * 2 ^ nat (- k)))"
    by (simp only: of_int_le_iff)
  also have "\<dots> = (1 / (2 :: rat) ^ nat (- k) \<le> of_int n / of_int d)"
    using assms by (simp add: field_simps)
  finally have "(d \<le> n * 2 ^ nat (- k)) = (1 / (2 :: rat) ^ nat (- k) \<le> of_int n / of_int d)" .
  moreover have "nat k = 0"
    using False by simp
  ultimately show ?thesis
    unfolding p by simp
qed

lemma bitlen_powi:
  assumes "0 < n"
  shows "(2 :: rat) powi (bitlen n - 1) \<le> of_int n" "of_int n < (2 :: rat) powi bitlen n"
proof -
  from bitlen_bounds [OF assms]
  have b: "1 \<le> bitlen n" "2 ^ nat (bitlen n - 1) \<le> n" "n < 2 ^ nat (bitlen n)"
    by simp_all
  have "(of_int (2 ^ nat (bitlen n - 1)) :: rat) \<le> of_int n"
    using b(2) by (simp only: of_int_le_iff)
  then show "(2 :: rat) powi (bitlen n - 1) \<le> of_int n"
    using b(1) by (simp add: two_powi_nat)
  have "(of_int n :: rat) < of_int (2 ^ nat (bitlen n))"
    using b(3) by (simp only: of_int_less_iff)
  then show "of_int n < (2 :: rat) powi bitlen n"
    using b(1) by (simp add: two_powi_nat)
qed

lemma binade_frac_bounds:
  assumes "0 < n" "0 < d"
  shows "(2 :: rat) powi (binade_frac n d) \<le> of_int n / of_int d"
    and "of_int n / of_int d < (2 :: rat) powi (binade_frac n d + 1)"
proof -
  define k where "k = bitlen n - bitlen d"
  let ?q = "(of_int n :: rat) / of_int d"
  note N = bitlen_powi [OF assms(1)] and D = bitlen_powi [OF assms(2)]
  have dpos: "(0 :: rat) < of_int d" "(0 :: rat) < of_int n"
    using assms by simp_all
  have up: "?q < 2 powi (k + 1)"
  proof -
    have "of_int n * (2 :: rat) powi (bitlen d - 1) < 2 powi bitlen n * of_int d"
      using N(2) D(1) dpos by (intro mult_less_le_imp_less) simp_all
    then have "?q < 2 powi bitlen n / 2 powi (bitlen d - 1)"
      using dpos by (simp add: field_simps)
    also have "\<dots> = 2 powi (k + 1)"
      by (simp add: k_def two_powi_diff [symmetric] algebra_simps)
    finally show ?thesis .
  qed
  have lo: "2 powi (k - 1) \<le> ?q"
  proof -
    have "(2 :: rat) powi (bitlen n - 1) * of_int d \<le> of_int n * 2 powi bitlen d"
      using N(1) D(2) dpos by (intro mult_mono) simp_all
    then have "2 powi (bitlen n - 1) / 2 powi bitlen d \<le> ?q"
      using dpos by (simp add: field_simps)
    moreover have "(2 :: rat) powi (bitlen n - 1) / 2 powi bitlen d = 2 powi (k - 1)"
      by (simp add: k_def two_powi_diff [symmetric] algebra_simps)
    ultimately show ?thesis by simp
  qed
  have def: "binade_frac n d = (if 2 powi k \<le> ?q then k else k - 1)"
    by (simp add: binade_frac_def Let_def k_def [symmetric] binade_test [OF assms(2)])
  show "(2 :: rat) powi (binade_frac n d) \<le> ?q"
    using lo by (simp add: def)
  show "?q < (2 :: rat) powi (binade_frac n d + 1)"
    using up by (simp add: def not_le)
qed

lemma binade_unique:
  assumes "(2 :: rat) powi k \<le> q" "q < 2 powi (k + 1)"
    and "(2 :: rat) powi k' \<le> q" "q < 2 powi (k' + 1)"
  shows "k = k'"
proof (rule ccontr)
  assume "k \<noteq> k'"
  then consider "k + 1 \<le> k'" | "k' + 1 \<le> k"
    by linarith
  then show False
  proof cases
    case 1
    then have "(2 :: rat) powi (k + 1) \<le> 2 powi k'"
      by (rule two_powi_mono)
    with assms show False by linarith
  next
    case 2
    then have "(2 :: rat) powi (k' + 1) \<le> 2 powi k"
      by (rule two_powi_mono)
    with assms show False by linarith
  qed
qed

lemma binade_bounds:
  assumes "q \<noteq> 0"
  shows "2 powi (binade q) \<le> \<bar>q\<bar>" "\<bar>q\<bar> < 2 powi (binade q + 1)"
proof -
  obtain n d where nd: "quotient_of \<bar>q\<bar> = (n, d)"
    by (cases "quotient_of \<bar>q\<bar>")
  have d: "0 < d"
    using nd by (rule quotient_of_denom_pos)
  have q: "\<bar>q\<bar> = of_int n / of_int d"
    using nd by (rule quotient_of_div)
  have n: "0 < n"
  proof -
    have "0 < \<bar>q\<bar>" using assms by simp
    then have "(0 :: rat) < of_int n / of_int d" by (simp only: q)
    then show ?thesis
      using d by (simp add: zero_less_divide_iff)
  qed
  have b: "binade q = binade_frac n d"
    by (simp add: binade_def nd)
  show "2 powi (binade q) \<le> \<bar>q\<bar>" "\<bar>q\<bar> < 2 powi (binade q + 1)"
    using binade_frac_bounds [OF n d] by (simp_all add: b q)
qed

lemma binade_eqI:
  assumes "(2 :: rat) powi k \<le> \<bar>q\<bar>" "\<bar>q\<bar> < 2 powi (k + 1)"
  shows "binade q = k"
proof -
  have "0 < \<bar>q\<bar>"
    using assms(1) two_powi_pos [of k] by linarith
  then have "q \<noteq> 0"
    by simp
  from binade_bounds [OF this] assms show ?thesis
    by (intro binade_unique [of "binade q" "\<bar>q\<bar>" k]) simp_all
qed

lemma scale_powi:
  assumes "0 < d"
  shows "(of_int (a * 2 ^ nat j) :: rat) / of_int (d * 2 ^ nat (- j))
           = of_int a / of_int d * 2 powi j"
proof (cases "0 \<le> j")
  case True
  then have "nat (- j) = 0"
    by simp
  then show ?thesis
    using True by (simp add: two_powi_nat)
next
  case False
  have "(2 :: rat) powi j = 1 / 2 powi (- j)"
    using power_int_minus_divide [of "2 :: rat" "- j"] by simp
  with False have p: "(2 :: rat) powi j = 1 / 2 ^ nat (- j)"
    by (simp add: two_powi_nat)
  have "nat j = 0"
    using False by simp
  then show ?thesis
    by (simp add: p)
qed

lemma nearest_pos:
  assumes "0 < q"
  shows "nearest q = of_int (rne (q * 2 powi (52 - binade q))) * 2 powi (binade q - 52)"
  using assms by (simp add: nearest_def)

lemma binade_minus [simp]: "binade (- q) = binade q"
  by (simp add: binade_def)

lemma nearest_minus: "nearest (- q) = - nearest q"
  by (simp add: nearest_def)

lemma nearest_0 [simp]: "nearest 0 = 0"
  by (simp add: nearest_def)

lemma binade_scale:
  assumes "q \<noteq> 0"
  shows "binade (q * 2 powi x) = binade q + x"
proof (rule binade_eqI)
  note b = binade_bounds [OF assms]
  have a: "\<bar>q * 2 powi x\<bar> = \<bar>q\<bar> * 2 powi x"
    by (simp add: abs_mult)
  show "2 powi (binade q + x) \<le> \<bar>q * 2 powi x\<bar>"
    using b(1) by (simp add: a two_powi_add)
  have "\<bar>q\<bar> * 2 powi x < 2 powi (binade q + 1) * 2 powi x"
    using b(2) by simp
  then show "\<bar>q * 2 powi x\<bar> < 2 powi (binade q + x + 1)"
    by (simp add: a two_powi_add mult.commute mult.left_commute)
qed

lemma binade_frac_binade:
  assumes "0 < n" "0 < d"
  shows "binade (of_int n / of_int d) = binade_frac n d"
proof (rule binade_eqI)
  have a: "\<bar>(of_int n :: rat) / of_int d\<bar> = of_int n / of_int d"
    using assms by simp
  show "2 powi binade_frac n d \<le> \<bar>(of_int n :: rat) / of_int d\<bar>"
    unfolding a by (rule binade_frac_bounds [OF assms])
  show "\<bar>(of_int n :: rat) / of_int d\<bar> < 2 powi (binade_frac n d + 1)"
    unfolding a by (rule binade_frac_bounds [OF assms])
qed

lemma val_rnd_pos:
  assumes "0 < n" "0 < d"
  shows "val (rnd n d x) = nearest (of_int n / of_int d * 2 powi x)"
proof -
  define r :: rat where "r = of_int n / of_int d"
  define q where "q = r * 2 powi x"
  define k where "k = binade_frac n d"
  have rpos: "0 < r"
    using assms by (simp add: r_def)
  have qpos: "0 < q"
    unfolding q_def using rpos by (intro mult_pos_pos) simp_all
  have br: "binade r = k"
    unfolding r_def k_def by (rule binade_frac_binade [OF assms])
  have bq: "binade q = k + x"
    unfolding q_def using binade_scale [of r x] rpos br by simp
  define M where "M = round_half_even_div (n * 2 ^ nat (52 - k)) (d * 2 ^ nat (k - 52))"
  have dd: "0 < d * 2 ^ nat (k - 52)"
    using assms(2) by simp
  have "M = rne (of_int (n * 2 ^ nat (52 - k)) / of_int (d * 2 ^ nat (- (52 - k))))"
    unfolding M_def using round_half_even_div_rne [OF dd] by simp
  also have "of_int (n * 2 ^ nat (52 - k)) / of_int (d * 2 ^ nat (- (52 - k)))
      = r * 2 powi (52 - k)"
    unfolding r_def by (rule scale_powi [OF assms(2)])
  also have "r * 2 powi (52 - k) = q * 2 powi (52 - binade q)"
  proof -
    have "(2 :: rat) powi x * 2 powi (52 - (k + x)) = 2 powi (52 - k)"
      by (simp add: two_powi_add [symmetric])
    moreover have "q * 2 powi (52 - binade q) = r * (2 powi x * 2 powi (52 - (k + x)))"
      unfolding bq by (simp add: q_def mult.assoc)
    ultimately show ?thesis
      by simp
  qed
  finally have M: "M = rne (q * 2 powi (52 - binade q))" .
  have n: "nearest q = of_int M * 2 powi (k + x - 52)"
    using nearest_pos [OF qpos] by (simp add: M bq)
  have e1: "(2 :: rat) powi (k - 51 + x) = 2 * 2 powi (k + x - 52)"
    using two_powi_Suc [of "k + x - 52"] by (simp add: algebra_simps)
  have "val (rnd n d x) = of_int M * 2 powi (k + x - 52)"
  proof (cases "M = 2 ^ 53")
    case True
    then have "rnd n d x = Dbl (2 ^ 52) (k - 51 + x)"
      using assms(1) by (simp add: rnd_def Let_def k_def [symmetric] M_def [symmetric])
    then show ?thesis
      by (simp add: val_def e1 True)
  next
    case False
    then have "rnd n d x = Dbl M (k - 52 + x)"
      using assms(1) by (simp add: rnd_def Let_def k_def [symmetric] M_def [symmetric])
    then show ?thesis
      by (simp add: val_def algebra_simps)
  qed
  with n show ?thesis
    by (simp add: q_def r_def)
qed

lemma rnd_neg:
  assumes "n < 0"
  shows "val (rnd n d x) = - val (rnd (- n) d x)"
proof -
  have "mant (rnd n d x) = - mant (rnd (- n) d x)" "expn (rnd n d x) = expn (rnd (- n) d x)"
    using assms by (simp_all add: rnd_def Let_def)
  then show ?thesis
    by (simp add: val_def)
qed

lemma val_rnd:
  assumes "0 < d"
  shows "val (rnd n d x) = nearest (of_int n / of_int d * 2 powi x)"
proof -
  consider "n = 0" | "0 < n" | "n < 0"
    by linarith
  then show ?thesis
  proof cases
    case 1
    then show ?thesis
      by (simp add: rnd_def val_def)
  next
    case 2
    then show ?thesis
      using assms by (rule val_rnd_pos)
  next
    case 3
    then have "0 < - n"
      by simp
    from val_rnd_pos [OF this assms, of x] rnd_neg [OF 3, of d x]
    show ?thesis
      using nearest_minus [of "of_int (- n) / of_int d * 2 powi x"] by simp
  qed
qed

lemma scaled_range:
  assumes "0 < q"
  shows "2 ^ 52 \<le> q * 2 powi (52 - binade q)" "q * 2 powi (52 - binade q) < 2 ^ 53"
proof -
  have q0: "q \<noteq> 0" and a: "\<bar>q\<bar> = q"
    using assms by simp_all
  note b = binade_bounds [OF q0, unfolded a]
  have "2 powi binade q * 2 powi (52 - binade q) \<le> q * 2 powi (52 - binade q)"
    using b(1) by simp
  moreover have "(2 :: rat) powi binade q * 2 powi (52 - binade q) = 2 ^ 52"
    by (simp add: two_powi_add [symmetric])
  ultimately show "2 ^ 52 \<le> q * 2 powi (52 - binade q)"
    by simp
  have "q * 2 powi (52 - binade q) < 2 powi (binade q + 1) * 2 powi (52 - binade q)"
    using b(2) by simp
  moreover have "(2 :: rat) powi (binade q + 1) * 2 powi (52 - binade q) = 2 ^ 53"
    by (simp add: two_powi_add [symmetric])
  ultimately show "q * 2 powi (52 - binade q) < 2 ^ 53"
    by simp
qed

lemma nearest_pos_bounds:
  assumes "0 < q"
  shows "2 powi binade q \<le> nearest q" "nearest q \<le> 2 powi (binade q + 1)"
proof -
  define m where "m = q * 2 powi (52 - binade q)"
  note r = scaled_range [OF assms, folded m_def]
  have "rne (of_int (2 ^ 52)) \<le> rne m"
    using r(1) by (intro rne_mono) simp
  then have lo: "(2 :: rat) ^ 52 \<le> of_int (rne m)"
    unfolding rne_of_int by (metis of_int_le_iff of_int_numeral of_int_power)
  have "rne m \<le> rne (of_int (2 ^ 53))"
    using r(2) by (intro rne_mono) simp
  then have hi: "of_int (rne m) \<le> (2 :: rat) ^ 53"
    unfolding rne_of_int by (metis of_int_le_iff of_int_numeral of_int_power)
  have n: "nearest q = of_int (rne m) * 2 powi (binade q - 52)"
    using nearest_pos [OF assms] by (simp add: m_def)
  have c: "(0 :: rat) \<le> 2 powi (binade q - 52)"
    by simp
  have A: "(2 :: rat) ^ 52 * 2 powi (binade q - 52) \<le> of_int (rne m) * 2 powi (binade q - 52)"
    by (rule mult_right_mono [OF lo c])
  have B: "(2 :: rat) ^ 52 * 2 powi (binade q - 52) = 2 powi binade q"
    using two_powi_add [of 52 "binade q - 52"] by simp
  show "2 powi binade q \<le> nearest q"
    unfolding n B [symmetric] by (rule A)
  have A': "of_int (rne m) * 2 powi (binade q - 52) \<le> (2 :: rat) ^ 53 * 2 powi (binade q - 52)"
    by (rule mult_right_mono [OF hi c])
  have B': "(2 :: rat) ^ 53 * 2 powi (binade q - 52) = 2 powi (binade q + 1)"
    using two_powi_add [of 53 "binade q - 52"] by (simp add: add.commute)
  show "nearest q \<le> 2 powi (binade q + 1)"
    unfolding n B' [symmetric] by (rule A')
qed

lemma nearest_pos_nonneg: "0 < q \<Longrightarrow> 0 < nearest q"
  using nearest_pos_bounds(1) [of q] two_powi_pos [of "binade q"] by linarith

lemma nearest_mono_pos:
  assumes "0 < x" "x \<le> y"
  shows "nearest x \<le> nearest y"
proof -
  have y: "0 < y"
    using assms by linarith
  have x0: "x \<noteq> 0" "\<bar>x\<bar> = x" and y0: "y \<noteq> 0" "\<bar>y\<bar> = y"
    using assms y by simp_all
  note bx = binade_bounds [OF x0(1), unfolded x0(2)]
  note by' = binade_bounds [OF y0(1), unfolded y0(2)]
  have le: "binade x \<le> binade y"
  proof (rule ccontr)
    assume "\<not> binade x \<le> binade y"
    then have "binade y + 1 \<le> binade x"
      by simp
    then have "(2 :: rat) powi (binade y + 1) \<le> 2 powi binade x"
      by (rule two_powi_mono)
    with bx(1) by'(2) assms(2) show False
      by linarith
  qed
  show ?thesis
  proof (cases "binade x = binade y")
    case True
    have "x * 2 powi (52 - binade y) \<le> y * 2 powi (52 - binade y)"
      using assms(2) by simp
    then have "rne (x * 2 powi (52 - binade y)) \<le> rne (y * 2 powi (52 - binade y))"
      by (rule rne_mono)
    then have "(of_int (rne (x * 2 powi (52 - binade y))) :: rat)
        \<le> of_int (rne (y * 2 powi (52 - binade y)))"
      by (simp only: of_int_le_iff)
    then show ?thesis
      unfolding nearest_pos [OF assms(1)] nearest_pos [OF y] True by simp
  next
    case False
    with le have "binade x + 1 \<le> binade y"
      by simp
    then have "(2 :: rat) powi (binade x + 1) \<le> 2 powi binade y"
      by (rule two_powi_mono)
    with nearest_pos_bounds(2) [OF assms(1)] nearest_pos_bounds(1) [OF y] show ?thesis
      by linarith
  qed
qed

lemma nearest_mono:
  assumes "x \<le> y"
  shows "nearest x \<le> nearest y"
proof -
  consider "0 < x" | "x \<le> 0" "0 \<le> y" | "y < 0"
    using assms by linarith
  then show ?thesis
  proof cases
    case 1
    then show ?thesis
      using assms by (rule nearest_mono_pos)
  next
    case 2
    have "nearest x \<le> 0"
    proof (cases "x = 0")
      case True
      then show ?thesis by simp
    next
      case False
      with 2 have "0 < - x" by simp
      from nearest_pos_nonneg [OF this] show ?thesis
        by (simp add: nearest_minus)
    qed
    moreover have "0 \<le> nearest y"
    proof (cases "y = 0")
      case True
      then show ?thesis by simp
    next
      case False
      with 2 have "0 < y" by simp
      from nearest_pos_nonneg [OF this] show ?thesis
        by simp
    qed
    ultimately show ?thesis
      by linarith
  next
    case 3
    then have "0 < - y" "- y \<le> - x"
      using assms by simp_all
    from nearest_mono_pos [OF this] show ?thesis
      by (simp add: nearest_minus)
  qed
qed

lemma nearest_of_int_pos:
  assumes "0 < n" "n < 2 ^ 53"
  shows "nearest (of_int n) = of_int n"
proof -
  let ?q = "of_int n :: rat"
  have q: "0 < ?q"
    using assms by simp
  have q0: "?q \<noteq> 0" "\<bar>?q\<bar> = ?q"
    using assms by simp_all
  note b = binade_bounds [OF q0(1), unfolded q0(2)]
  have "?q < 2 powi 53"
  proof -
    have "?q < of_int (2 ^ 53)"
      using assms(2) by (simp only: of_int_less_iff)
    then show ?thesis by simp
  qed
  with b(1) have "(2 :: rat) powi binade ?q < 2 powi 53"
    by linarith
  then have k: "binade ?q \<le> 52"
    using two_powi_mono [of 53 "binade ?q"] by (cases "binade ?q \<le> 52") auto
  define j where "j = nat (52 - binade ?q)"
  have p: "(2 :: rat) powi (52 - binade ?q) = 2 ^ j"
    using k by (simp add: two_powi_nat j_def)
  have "?q * 2 powi (52 - binade ?q) = of_int (n * 2 ^ j)"
    by (simp add: p)
  then have "rne (?q * 2 powi (52 - binade ?q)) = n * 2 ^ j"
    by (simp only: rne_of_int)
  then have "nearest ?q = of_int (n * 2 ^ j) * 2 powi (binade ?q - 52)"
    using nearest_pos [OF q] by simp
  also have "\<dots> = ?q * (2 powi (52 - binade ?q) * 2 powi (binade ?q - 52))"
    by (simp add: p)
  also have "(2 :: rat) powi (52 - binade ?q) * 2 powi (binade ?q - 52) = 1"
    by (simp add: two_powi_add [symmetric])
  finally show ?thesis
    by simp
qed

lemma nearest_of_int:
  assumes "\<bar>n\<bar> < 2 ^ 53"
  shows "nearest (of_int n) = of_int n"
proof -
  consider "n = 0" | "0 < n" | "n < 0"
    by linarith
  then show ?thesis
  proof cases
    case 1
    then show ?thesis by simp
  next
    case 2
    with assms show ?thesis
      by (intro nearest_of_int_pos) simp_all
  next
    case 3
    with assms have "nearest (of_int (- n)) = of_int (- n)"
      by (intro nearest_of_int_pos) simp_all
    then show ?thesis
      using nearest_minus [of "of_int n"] by simp
  qed
qed

lemma nearest_error_pos:
  assumes "0 < q"
  shows "\<bar>nearest q - q\<bar> \<le> q / 2 ^ 53"
proof -
  define k where "k = binade q"
  define m where "m = q * 2 powi (52 - k)"
  have q0: "q \<noteq> 0" "\<bar>q\<bar> = q"
    using assms by simp_all
  note b = binade_bounds [OF q0(1), unfolded q0(2), folded k_def]
  have n: "nearest q = of_int (rne m) * 2 powi (k - 52)"
    using nearest_pos [OF assms] by (simp add: m_def k_def)
  have qm: "q = m * 2 powi (k - 52)"
  proof -
    have "(2 :: rat) powi (52 - k) * 2 powi (k - 52) = 1"
      by (simp add: two_powi_add [symmetric])
    then show ?thesis
      by (simp add: m_def mult.assoc)
  qed
  have "nearest q - q = of_int (rne m) * 2 powi (k - 52) - m * 2 powi (k - 52)"
    using n qm by simp
  then have "nearest q - q = (of_int (rne m) - m) * 2 powi (k - 52)"
    by (simp only: left_diff_distrib)
  then have "\<bar>nearest q - q\<bar> = \<bar>of_int (rne m) - m\<bar> * 2 powi (k - 52)"
    by (simp add: abs_mult)
  also have "\<dots> \<le> 1 / 2 * 2 powi (k - 52)"
    using rne_error [of m] by (intro mult_right_mono) simp_all
  also have "1 / 2 * (2 :: rat) powi (k - 52) = 2 powi k / 2 ^ 53"
  proof -
    have "(2 :: rat) powi (k - 52) = 2 powi k / 2 powi 52"
      by (rule two_powi_diff)
    then show ?thesis by simp
  qed
  also have "\<dots> \<le> q / 2 ^ 53"
    using b(1) by (simp add: divide_right_mono)
  finally show ?thesis .
qed

lemma nearest_error: "\<bar>nearest q - q\<bar> \<le> \<bar>q\<bar> / 2 ^ 53"
proof -
  consider "q = 0" | "0 < q" | "q < 0"
    by linarith
  then show ?thesis
  proof cases
    case 1
    then show ?thesis by simp
  next
    case 2
    then show ?thesis
      using nearest_error_pos [of q] by simp
  next
    case 3
    then have "0 < - q" by simp
    from nearest_error_pos [OF this] 3 show ?thesis
      by (simp add: nearest_minus abs_minus_commute)
  qed
qed

section \<open>The float operations of the program\<close>

lemma trunc_of_int [simp]: "trunc (of_int z) = z"
  by (simp add: trunc_def)

lemma trunc_mono:
  assumes "x \<le> y"
  shows "trunc x \<le> trunc y"
proof -
  consider "0 \<le> x" | "x < 0" "0 \<le> y" | "y < 0"
    using assms by linarith
  then show ?thesis
  proof cases
    case 1
    then have "0 \<le> y" using assms by linarith
    with 1 show ?thesis
      using floor_mono [OF assms] by (simp add: trunc_def)
  next
    case 2
    have "\<lceil>x\<rceil> \<le> 0"
      using 2 by (simp add: ceiling_le_iff)
    moreover have "0 \<le> \<lfloor>y\<rfloor>"
      using 2 by simp
    ultimately have "\<lceil>x\<rceil> \<le> \<lfloor>y\<rfloor>"
      by linarith
    with 2 show ?thesis
      by (simp add: trunc_def)
  next
    case 3
    then have "x < 0" using assms by linarith
    with 3 show ?thesis
      using ceiling_mono [OF assms] by (simp add: trunc_def)
  qed
qed

lemma val_float_of_int: "val (float_of_int n) = nearest (of_int n)"
  using val_rnd [of 1 n 0] by (simp add: float_of_int_def)

lemma val_float_of_int_exact: "\<bar>n\<bar> < 2 ^ 53 \<Longrightarrow> val (float_of_int n) = of_int n"
  by (simp only: val_float_of_int nearest_of_int)

lemma val_int_truediv: "0 < b \<Longrightarrow> val (int_truediv a b) = nearest (of_int a / of_int b)"
  using val_rnd [of b a 0] by (simp add: int_truediv_def)

lemma val_float_mul: "val (float_mul a b) = nearest (val a * val b)"
proof -
  have "val (float_mul a b)
      = nearest (of_int (mant a * mant b) / of_int 1 * 2 powi (expn a + expn b))"
    unfolding float_mul_def by (rule val_rnd) simp
  also have "of_int (mant a * mant b) / of_int 1 * (2 :: rat) powi (expn a + expn b)
      = val a * val b"
    by (simp add: val_def two_powi_add)
  finally show ?thesis .
qed

lemma val_float_add: "val (float_add a b) = nearest (val a + val b)"
proof -
  define e where "e = min (expn a) (expn b)"
  have sc: "of_int (m * 2 ^ nat (x - e)) * (2 :: rat) powi e = of_int m * 2 powi x"
    if "e \<le> x" for m x
  proof -
    have "(2 :: rat) ^ nat (x - e) = 2 powi (x - e)"
      using that by (simp add: two_powi_nat)
    moreover have "(2 :: rat) powi (x - e) * 2 powi e = 2 powi x"
      by (simp add: two_powi_add [symmetric])
    ultimately show ?thesis
      by (simp add: mult.assoc)
  qed
  have ea: "e \<le> expn a" "e \<le> expn b"
    by (simp_all add: e_def)
  have "val (float_add a b)
      = nearest (of_int (mant a * 2 ^ nat (expn a - e) + mant b * 2 ^ nat (expn b - e))
          / of_int 1 * 2 powi e)"
    unfolding float_add_def Let_def e_def [symmetric] by (rule val_rnd) simp
  also have "of_int (mant a * 2 ^ nat (expn a - e) + mant b * 2 ^ nat (expn b - e))
          / of_int 1 * (2 :: rat) powi e
      = of_int (mant a * 2 ^ nat (expn a - e)) * 2 powi e
        + of_int (mant b * 2 ^ nat (expn b - e)) * 2 powi e"
    by (simp add: algebra_simps)
  also have "\<dots> = val a + val b"
    unfolding val_def by (simp only: sc [OF ea(1)] sc [OF ea(2)])
  finally show ?thesis .
qed

lemma py_int_trunc: "py_int f = trunc (val f)"
proof (cases "0 \<le> expn f")
  case True
  then have v: "val f = of_int (mant f * 2 ^ nat (expn f))"
    by (simp add: val_def two_powi_nat)
  show ?thesis
    unfolding py_int_def v using True by (simp only: trunc_of_int if_True)
next
  case False
  define j where "j = nat (- expn f)"
  have "(2 :: rat) powi expn f = 1 / 2 powi (- expn f)"
    using power_int_minus_divide [of "2 :: rat" "- expn f"] by simp
  with False have p: "(2 :: rat) powi expn f = 1 / 2 ^ j"
    by (simp add: two_powi_nat j_def)
  have v: "val f = of_int (mant f) / of_int (2 ^ j)"
    by (simp add: val_def p)
  have fl: "\<lfloor>val f\<rfloor> = mant f div 2 ^ j"
    unfolding v by (rule floor_divide_of_int_eq)
  show ?thesis
  proof (cases "0 \<le> mant f")
    case True
    then have "0 \<le> val f"
      by (simp add: v)
    then show ?thesis
      using True False fl by (simp add: py_int_def trunc_def j_def sgn_if)
  next
    case neg: False
    then have lt: "val f < 0"
      by (simp add: v divide_neg_pos)
    have "\<lceil>val f\<rceil> = - \<lfloor>- val f\<rfloor>"
      by (simp add: ceiling_def)
    also have "- val f = of_int (- mant f) / of_int (2 ^ j)"
      by (simp add: v)
    also have "\<lfloor>(of_int (- mant f) :: rat) / of_int (2 ^ j)\<rfloor> = (- mant f) div 2 ^ j"
      by (rule floor_divide_of_int_eq)
    finally have "\<lceil>val f\<rceil> = - ((- mant f) div 2 ^ j)" .
    then show ?thesis
      using neg False lt by (simp add: py_int_def trunc_def j_def sgn_if)
  qed
qed

section \<open>Interpolating one channel\<close>

lemma nearest_1 [simp]: "nearest 1 = 1"
  using nearest_of_int [of 1] by simp

lemma step_val: "val (int_truediv i steps) = nearest (of_int i / 20)"
  using val_int_truediv [of 20 i] by (simp add: steps_def)

lemma step_unit:
  assumes "0 \<le> i" "i \<le> 20"
  shows "0 \<le> val (int_truediv i steps)" "val (int_truediv i steps) \<le> 1"
proof -
  have "(0 :: rat) \<le> of_int i / 20" "(of_int i :: rat) / 20 \<le> 1"
    using assms by simp_all
  from nearest_mono [OF this(1)] nearest_mono [OF this(2)]
  show "0 \<le> val (int_truediv i steps)" "val (int_truediv i steps) \<le> 1"
    by (simp_all add: step_val)
qed

lemma step_mono:
  assumes "i \<le> j"
  shows "val (int_truediv i steps) \<le> val (int_truediv j steps)"
proof -
  have "(of_int i :: rat) / 20 \<le> of_int j / 20"
    using assms by simp
  then show ?thesis
    unfolding step_val by (rule nearest_mono)
qed

lemma step_last: "val (int_truediv 20 steps) = 1"
  by (simp add: step_val)

lemma lerp_val:
  assumes "\<bar>c0\<bar> \<le> 255" "\<bar>c1\<bar> \<le> 255"
  shows "lerp c0 c1 T = trunc (lerp_float c0 c1 (val T))"
proof -
  have "\<bar>c0\<bar> < 2 ^ 53" "\<bar>c1 - c0\<bar> < 2 ^ 53"
    using assms by simp_all
  then show ?thesis
    by (simp only: lerp_def lerp_float_def py_int_trunc val_float_add val_float_mul
        val_float_of_int_exact)
qed

lemma lerp_float_up:
  assumes "c0 \<le> c1" "t \<le> t'"
  shows "lerp_float c0 c1 t \<le> lerp_float c0 c1 t'"
proof -
  have "(0 :: rat) \<le> of_int (c1 - c0)"
    using assms(1) by simp
  then have "of_int (c1 - c0) * t \<le> of_int (c1 - c0) * t'"
    using assms(2) by (intro mult_left_mono)
  then have "of_int c0 + nearest (of_int (c1 - c0) * t)
      \<le> of_int c0 + nearest (of_int (c1 - c0) * t')"
    by (intro add_left_mono nearest_mono)
  then show ?thesis
    unfolding lerp_float_def by (rule nearest_mono)
qed

lemma lerp_float_down:
  assumes "c1 \<le> c0" "t \<le> t'"
  shows "lerp_float c0 c1 t' \<le> lerp_float c0 c1 t"
proof -
  have "(of_int (c1 - c0) :: rat) \<le> 0"
    using assms(1) by simp
  then have "of_int (c1 - c0) * t' \<le> of_int (c1 - c0) * t"
    using assms(2) by (intro mult_left_mono_neg)
  then have "of_int c0 + nearest (of_int (c1 - c0) * t')
      \<le> of_int c0 + nearest (of_int (c1 - c0) * t)"
    by (intro add_left_mono nearest_mono)
  then show ?thesis
    unfolding lerp_float_def by (rule nearest_mono)
qed

lemma lerp_float_0:
  assumes "\<bar>c0\<bar> \<le> 255"
  shows "lerp_float c0 c1 0 = of_int c0"
proof -
  have "\<bar>c0\<bar> < 2 ^ 53"
    using assms by simp
  then show ?thesis
    by (simp add: lerp_float_def nearest_of_int)
qed

lemma lerp_float_1:
  assumes "\<bar>c0\<bar> \<le> 255" "\<bar>c1\<bar> \<le> 255"
  shows "lerp_float c0 c1 1 = of_int c1"
proof -
  have b: "\<bar>c1 - c0\<bar> < 2 ^ 53" "\<bar>c1\<bar> < 2 ^ 53"
    using assms by simp_all
  have "nearest (of_int (c1 - c0) * 1) = of_int (c1 - c0)"
    using nearest_of_int [OF b(1)] by simp
  moreover have "of_int c0 + (of_int (c1 - c0) :: rat) = of_int c1"
    by simp
  ultimately show ?thesis
    unfolding lerp_float_def using nearest_of_int [OF b(2)] by simp
qed

lemma lerp_up:
  assumes b: "\<bar>c0\<bar> \<le> 255" "\<bar>c1\<bar> \<le> 255" and up: "c0 \<le> c1"
    and t: "0 \<le> val T" "val T \<le> val T'" "val T' \<le> 1"
  shows "c0 \<le> lerp c0 c1 T" "lerp c0 c1 T \<le> lerp c0 c1 T'" "lerp c0 c1 T' \<le> c1"
proof -
  have "trunc (lerp_float c0 c1 0) \<le> trunc (lerp_float c0 c1 (val T))"
    by (intro trunc_mono lerp_float_up up t)
  then show "c0 \<le> lerp c0 c1 T"
    by (simp add: lerp_val [OF b] lerp_float_0 [OF b(1)])
  show "lerp c0 c1 T \<le> lerp c0 c1 T'"
    unfolding lerp_val [OF b] by (intro trunc_mono lerp_float_up up t)
  have "trunc (lerp_float c0 c1 (val T')) \<le> trunc (lerp_float c0 c1 1)"
    by (intro trunc_mono lerp_float_up up t)
  then show "lerp c0 c1 T' \<le> c1"
    by (simp add: lerp_val [OF b] lerp_float_1 [OF b])
qed

lemma lerp_down:
  assumes b: "\<bar>c0\<bar> \<le> 255" "\<bar>c1\<bar> \<le> 255" and down: "c1 \<le> c0"
    and t: "0 \<le> val T" "val T \<le> val T'" "val T' \<le> 1"
  shows "lerp c0 c1 T \<le> c0" "lerp c0 c1 T' \<le> lerp c0 c1 T" "c1 \<le> lerp c0 c1 T'"
proof -
  have "trunc (lerp_float c0 c1 (val T)) \<le> trunc (lerp_float c0 c1 0)"
    by (intro trunc_mono lerp_float_down down t)
  then show "lerp c0 c1 T \<le> c0"
    by (simp add: lerp_val [OF b] lerp_float_0 [OF b(1)])
  show "lerp c0 c1 T' \<le> lerp c0 c1 T"
    unfolding lerp_val [OF b] by (intro trunc_mono lerp_float_down down t)
  have "trunc (lerp_float c0 c1 1) \<le> trunc (lerp_float c0 c1 (val T'))"
    by (intro trunc_mono lerp_float_down down t)
  then show "c1 \<le> lerp c0 c1 T'"
    by (simp add: lerp_val [OF b] lerp_float_1 [OF b])
qed

lemma lerp_last:
  assumes "\<bar>c0\<bar> \<le> 255" "\<bar>c1\<bar> \<le> 255" "val T = 1"
  shows "lerp c0 c1 T = c1"
  by (simp add: lerp_val [OF assms(1,2)] assms(3) lerp_float_1 [OF assms(1,2)])

lemma first_step: "int_truediv 1 steps = Dbl 7205759403792794 (- 57)"
  by code_simp

lemma first_step_val:
  "1 / 20 \<le> val (int_truediv 1 steps)" "val (int_truediv 1 steps) \<le> 1 / 2"
  by (simp_all add: first_step val_def power_int_minus_divide)

lemma lerp_first_up:
  assumes b: "\<bar>c0\<bar> \<le> 255" "\<bar>c1\<bar> \<le> 255" and far: "20 \<le> c1 - c0"
  shows "c0 < lerp c0 c1 (int_truediv 1 steps)" "lerp c0 c1 (int_truediv 1 steps) < c1"
proof -
  define t where "t = val (int_truediv 1 steps)"
  define P where "P = nearest (of_int (c1 - c0) * t)"
  note t = first_step_val [folded t_def]
  have d: "(20 :: rat) \<le> of_int (c1 - c0)"
    using far by (metis of_int_le_iff of_int_numeral)
  have bd: "\<bar>c1 - c0 - 1\<bar> < 2 ^ 53" "\<bar>c0 + 1\<bar> < 2 ^ 53" "\<bar>c1 - 1\<bar> < 2 ^ 53"
    using b by simp_all
  have "20 * (1 / 20) \<le> of_int (c1 - c0) * t"
    using d t(1) by (intro mult_mono) simp_all
  then have "(1 :: rat) \<le> of_int (c1 - c0) * t"
    by simp
  from nearest_mono [OF this] have P1: "1 \<le> P"
    by (simp add: P_def)
  have "of_int (c1 - c0) * t \<le> of_int (c1 - c0) * (1 / 2)"
    using d t(2) by (intro mult_left_mono) simp_all
  also have "\<dots> \<le> of_int (c1 - c0 - 1)"
    using d by simp
  finally have "P \<le> nearest (of_int (c1 - c0 - 1))"
    unfolding P_def by (rule nearest_mono)
  then have P2: "P \<le> of_int (c1 - c0 - 1)"
    by (simp only: nearest_of_int [OF bd(1)])
  have "of_int (c0 + 1) \<le> of_int c0 + P"
    using P1 by simp
  from nearest_mono [OF this] have "of_int (c0 + 1) \<le> lerp_float c0 c1 t"
    by (simp only: nearest_of_int [OF bd(2)] lerp_float_def P_def)
  from trunc_mono [OF this] have "c0 + 1 \<le> trunc (lerp_float c0 c1 t)"
    by (simp only: trunc_of_int)
  then show "c0 < lerp c0 c1 (int_truediv 1 steps)"
    by (simp add: lerp_val [OF b] t_def)
  have "of_int c0 + P \<le> of_int (c1 - 1)"
    using P2 by simp
  from nearest_mono [OF this] have "lerp_float c0 c1 t \<le> of_int (c1 - 1)"
    by (simp only: nearest_of_int [OF bd(3)] lerp_float_def P_def)
  from trunc_mono [OF this] have "trunc (lerp_float c0 c1 t) \<le> c1 - 1"
    by (simp only: trunc_of_int)
  then show "lerp c0 c1 (int_truediv 1 steps) < c1"
    by (simp add: lerp_val [OF b] t_def)
qed

lemma lerp_first_down:
  assumes b: "\<bar>c0\<bar> \<le> 255" "\<bar>c1\<bar> \<le> 255" and far: "20 \<le> c0 - c1"
  shows "c1 < lerp c0 c1 (int_truediv 1 steps)" "lerp c0 c1 (int_truediv 1 steps) < c0"
proof -
  define t where "t = val (int_truediv 1 steps)"
  define P where "P = nearest (of_int (c1 - c0) * t)"
  note t = first_step_val [folded t_def]
  have d: "of_int (c1 - c0) \<le> (- 20 :: rat)"
  proof -
    have "c1 - c0 \<le> - 20"
      using far by simp
    then have "(of_int (c1 - c0) :: rat) \<le> of_int (- 20)"
      by (simp only: of_int_le_iff)
    then show ?thesis by simp
  qed
  have bd: "\<bar>c1 - c0 + 1\<bar> < 2 ^ 53" "\<bar>c0 - 1\<bar> < 2 ^ 53" "\<bar>c1 + 1\<bar> < 2 ^ 53"
    "\<bar>- 1 :: int\<bar> < 2 ^ 53"
    using b by simp_all
  have "of_int (c1 - c0) * t \<le> (- 20) * (1 / 20)"
  proof -
    have "of_int (c1 - c0) * t \<le> of_int (c1 - c0) * (1 / 20)"
      using d t(1) by (intro mult_left_mono_neg) simp_all
    also have "\<dots> \<le> (- 20) * (1 / 20)"
      using d by (intro mult_right_mono) simp_all
    finally show ?thesis .
  qed
  then have "of_int (c1 - c0) * t \<le> (of_int (- 1) :: rat)"
    by simp
  from nearest_mono [OF this] have P1: "P \<le> - 1"
    unfolding P_def nearest_of_int [OF bd(4)] by simp
  have "of_int (c1 - c0 + 1) \<le> of_int (c1 - c0) * (1 / 2 :: rat)"
    using d by simp
  also have "\<dots> \<le> of_int (c1 - c0) * t"
    using d t(2) by (intro mult_left_mono_neg) simp_all
  finally have "nearest (of_int (c1 - c0 + 1)) \<le> P"
    unfolding P_def by (rule nearest_mono)
  then have P2: "of_int (c1 - c0 + 1) \<le> P"
    by (simp only: nearest_of_int [OF bd(1)])
  have "of_int c0 + P \<le> of_int (c0 - 1)"
    using P1 by simp
  from nearest_mono [OF this] have "lerp_float c0 c1 t \<le> of_int (c0 - 1)"
    by (simp only: nearest_of_int [OF bd(2)] lerp_float_def P_def)
  from trunc_mono [OF this] have "trunc (lerp_float c0 c1 t) \<le> c0 - 1"
    by (simp only: trunc_of_int)
  then show "lerp c0 c1 (int_truediv 1 steps) < c0"
    by (simp add: lerp_val [OF b] t_def)
  have "of_int (c1 + 1) \<le> of_int c0 + P"
    using P2 by simp
  from nearest_mono [OF this] have "of_int (c1 + 1) \<le> lerp_float c0 c1 t"
    by (simp only: nearest_of_int [OF bd(3)] lerp_float_def P_def)
  from trunc_mono [OF this] have "c1 + 1 \<le> trunc (lerp_float c0 c1 t)"
    by (simp only: trunc_of_int)
  then show "c1 < lerp c0 c1 (int_truediv 1 steps)"
    by (simp add: lerp_val [OF b] t_def)
qed

lemma lerp_float_error:
  assumes c: "0 \<le> c0" "c0 \<le> 255" "0 \<le> c1" "c1 \<le> 255" and i: "0 \<le> i" "i \<le> 20"
  shows "\<bar>lerp_float c0 c1 (nearest (of_int i / 20))
           - (of_int c0 + of_int (c1 - c0) * (of_int i / 20))\<bar> < 1 / 20"
proof -
  define u :: rat where "u = 1 / 2 ^ 53"
  define x :: rat where "x = of_int i / 20"
  define t where "t = nearest x"
  define D :: rat where "D = of_int (c1 - c0)"
  define C :: rat where "C = of_int c0"
  define P where "P = nearest (D * t)"
  define S where "S = nearest (C + P)"
  have u: "0 < u" "1021 * u < 1 / 20"
    by (simp_all add: u_def)
  have x: "0 \<le> x" "x \<le> 1"
    using i by (simp_all add: x_def)
  have D: "\<bar>D\<bar> \<le> 255"
  proof -
    have "\<bar>c1 - c0\<bar> \<le> 255"
      using c by linarith
    then have "(of_int \<bar>c1 - c0\<bar> :: rat) \<le> of_int 255"
      by (simp only: of_int_le_iff)
    then show ?thesis
      by (simp add: D_def)
  qed
  have C: "0 \<le> C" "C \<le> 255"
    using c by (simp_all add: C_def)
  have err: "\<bar>nearest q - q\<bar> \<le> \<bar>q\<bar> * u" for q
    using nearest_error [of q] by (simp add: u_def)
  have t01: "0 \<le> t" "t \<le> 1"
    using nearest_mono [OF x(1)] nearest_mono [OF x(2)] by (simp_all add: t_def)
  have e1: "\<bar>t - x\<bar> \<le> u"
  proof -
    have "\<bar>t - x\<bar> \<le> \<bar>x\<bar> * u"
      unfolding t_def by (rule err)
    also have "\<dots> \<le> 1 * u"
      using x u(1) by (intro mult_right_mono) simp_all
    finally show ?thesis by simp
  qed
  have e2: "\<bar>D * t - D * x\<bar> \<le> 255 * u"
  proof -
    have "\<bar>D * t - D * x\<bar> = \<bar>D\<bar> * \<bar>t - x\<bar>"
      by (simp add: abs_mult [symmetric] right_diff_distrib)
    also have "\<dots> \<le> 255 * u"
      using D e1 by (intro mult_mono) simp_all
    finally show ?thesis .
  qed
  have Dt: "\<bar>D * t\<bar> \<le> 255"
  proof -
    have "\<bar>D * t\<bar> = \<bar>D\<bar> * \<bar>t\<bar>"
      by (rule abs_mult)
    also have "\<dots> \<le> 255 * 1"
      using D t01 by (intro mult_mono) simp_all
    finally show ?thesis by simp
  qed
  have e3: "\<bar>P - D * t\<bar> \<le> 255 * u"
  proof -
    have "\<bar>P - D * t\<bar> \<le> \<bar>D * t\<bar> * u"
      unfolding P_def by (rule err)
    also have "\<dots> \<le> 255 * u"
      using Dt u(1) by (intro mult_right_mono) simp_all
    finally show ?thesis .
  qed
  have CP: "\<bar>C + P\<bar> \<le> 511"
    using e3 Dt C u by (auto simp: abs_le_iff)
  have e4: "\<bar>S - (C + P)\<bar> \<le> 511 * u"
  proof -
    have "\<bar>S - (C + P)\<bar> \<le> \<bar>C + P\<bar> * u"
      unfolding S_def by (rule err)
    also have "\<dots> \<le> 511 * u"
      using CP u(1) by (intro mult_right_mono) simp_all
    finally show ?thesis .
  qed
  have "\<bar>S - (C + D * x)\<bar> \<le> 1021 * u"
    using e2 e3 e4 by (auto simp: abs_le_iff)
  with u(2) have "\<bar>S - (C + D * x)\<bar> < 1 / 20"
    by linarith
  then show ?thesis
    by (simp only: S_def P_def t_def x_def D_def C_def lerp_float_def)
qed

lemma lerp_float_nonneg:
  assumes c: "0 \<le> c0" "c0 \<le> 255" "0 \<le> c1" "c1 \<le> 255" and t: "0 \<le> t" "t \<le> 1"
  shows "0 \<le> lerp_float c0 c1 t"
proof (cases "c0 \<le> c1")
  case True
  have b: "\<bar>c0\<bar> \<le> 255"
    using c by simp
  have "lerp_float c0 c1 0 \<le> lerp_float c0 c1 t"
    using True t(1) by (rule lerp_float_up)
  then show ?thesis
    using c(1) by (simp add: lerp_float_0 [OF b])
next
  case False
  have b: "\<bar>c0\<bar> \<le> 255" "\<bar>c1\<bar> \<le> 255"
    using c by simp_all
  have "lerp_float c0 c1 1 \<le> lerp_float c0 c1 t"
    using False t(2) by (intro lerp_float_down) simp_all
  then show ?thesis
    using c(3) by (simp add: lerp_float_1 [OF b])
qed

lemma lerp_vs_exact:
  assumes c: "0 \<le> c0" "c0 \<le> 255" "0 \<le> c1" "c1 \<le> 255" and i: "0 \<le> i" "i \<le> 20"
  shows "\<not> 20 dvd (c1 - c0) * i \<Longrightarrow> lerp c0 c1 (int_truediv i steps) = exact_lerp c0 c1 i"
    and "lerp c0 c1 (int_truediv i steps) = exact_lerp c0 c1 i
         \<or> lerp c0 c1 (int_truediv i steps) = exact_lerp c0 c1 i - 1"
proof -
  define N where "N = 20 * c0 + (c1 - c0) * i"
  define z where "z = N div 20"
  define f where "f = N mod 20"
  define e :: rat where "e = of_int c0 + of_int (c1 - c0) * (of_int i / 20)"
  define S where "S = lerp_float c0 c1 (val (int_truediv i steps))"
  have b: "\<bar>c0\<bar> \<le> 255" "\<bar>c1\<bar> \<le> 255"
    using c by simp_all
  have N0: "0 \<le> N"
  proof -
    have "(c0 - c1) * i \<le> c0 * 20"
    proof (cases "c0 \<le> c1")
      case True
      then have "(c0 - c1) * i \<le> 0"
        using i by (simp add: mult_nonpos_nonneg)
      with c show ?thesis by linarith
    next
      case False
      then have "(c0 - c1) * i \<le> (c0 - c1) * 20"
        using i by (intro mult_left_mono) simp_all
      moreover have "(c0 - c1) * 20 \<le> c0 * 20"
        using c by simp
      ultimately show ?thesis by linarith
    qed
    then show ?thesis
      by (simp add: N_def algebra_simps)
  qed
  have f: "0 \<le> f" "f < 20" and N: "N = 20 * z + f"
    by (simp_all add: f_def z_def)
  have z0: "0 \<le> z"
    using N0 by (simp add: z_def pos_imp_zdiv_nonneg_iff)
  have e: "e = of_int z + of_int f / 20"
  proof -
    have "e = of_int N / 20"
      by (simp add: e_def N_def field_simps)
    then show ?thesis
      by (simp add: N)
  qed
  have fe: "\<lfloor>e\<rfloor> = z"
  proof (rule floor_unique)
    show "of_int z \<le> e"
      using f(1) by (simp add: e)
    have "(of_int f :: rat) < of_int 20"
      using f(2) by (simp only: of_int_less_iff)
    then show "e < of_int z + 1"
      by (simp add: e)
  qed
  have e0: "0 \<le> e"
    using z0 f(1) by (simp add: e)
  have "exact_lerp c0 c1 i = trunc e"
    by (simp only: exact_lerp_def e_def)
  then have ex: "exact_lerp c0 c1 i = z"
    using e0 fe by (simp add: trunc_def)
  have Se: "\<bar>S - e\<bar> < 1 / 20"
    unfolding S_def e_def step_val by (rule lerp_float_error [OF c i])
  have Se': "e - 1 / 20 < S" "S < e + 1 / 20"
    using Se unfolding abs_less_iff by linarith+
  have S0: "0 \<le> S"
    unfolding S_def using c step_unit [OF i] by (intro lerp_float_nonneg)
  have L: "lerp c0 c1 (int_truediv i steps) = \<lfloor>S\<rfloor>"
    using S0 by (simp add: lerp_val [OF b] S_def trunc_def)
  have dv: "(20 dvd (c1 - c0) * i) = (f = 0)"
  proof -
    have "(20 dvd N) = (20 dvd (c1 - c0) * i)"
      unfolding N_def by (simp add: dvd_add_right_iff)
    then show ?thesis
      by (simp add: f_def dvd_eq_mod_eq_0)
  qed
  show "lerp c0 c1 (int_truediv i steps) = exact_lerp c0 c1 i" if "\<not> 20 dvd (c1 - c0) * i"
  proof -
    from that have "1 \<le> f" "f \<le> 19"
      using f dv by linarith+
    then have "(of_int 1 :: rat) \<le> of_int f" "(of_int f :: rat) \<le> of_int 19"
      by (simp_all only: of_int_le_iff)
    then have "of_int z + 1 / 20 \<le> e" "e \<le> of_int z + 19 / 20"
      by (simp_all add: e)
    with Se' have "of_int z \<le> S" "S < of_int z + 1"
      by linarith+
    then have "\<lfloor>S\<rfloor> = z"
      by (intro floor_unique)
    then show ?thesis
      by (simp add: L ex)
  qed
  show "lerp c0 c1 (int_truediv i steps) = exact_lerp c0 c1 i
         \<or> lerp c0 c1 (int_truediv i steps) = exact_lerp c0 c1 i - 1"
  proof -
    have "f \<le> 19"
      using f(2) by simp
    then have "(of_int f :: rat) \<le> of_int 19"
      by (simp only: of_int_le_iff)
    then have "of_int z \<le> e" "e \<le> of_int z + 19 / 20"
      using f(1) by (simp_all add: e)
    with Se' have "of_int z - 1 \<le> S" "S < of_int z + 1"
      by linarith+
    then have "of_int (z - 1) \<le> S" "S < of_int (z + 1)"
      by simp_all
    then have "z - 1 \<le> \<lfloor>S\<rfloor>" "\<lfloor>S\<rfloor> < z + 1"
      by (simp_all only: le_floor_iff floor_less_iff)
    then show ?thesis
      unfolding L ex by linarith
  qed
qed

section \<open>The timed transition\<close>

lemma chan_frame:
  "chan ch (frame c0 c1 i) = lerp (chan ch c0) (chan ch c1) (int_truediv i steps)"
  by (cases ch) (simp_all add: frame_def)

lemma chan_exact_frame:
  "chan ch (exact_frame c0 c1 i) = exact_lerp (chan ch c0) (chan ch c1) i"
  by (cases ch) (simp_all add: exact_frame_def)

lemma rgb8_chan: "rgb8 c \<Longrightarrow> 0 \<le> chan ch c \<and> chan ch c \<le> 255"
  by (cases ch) (simp_all add: rgb8_def)

lemma round_half_even_div_nonneg:
  assumes "0 \<le> N" "0 < D"
  shows "0 \<le> round_half_even_div N D"
proof -
  have "0 \<le> N div D"
    using assms by (simp add: pos_imp_zdiv_nonneg_iff)
  then show ?thesis
    by (simp add: round_half_even_div_def Let_def)
qed

lemma rnd_mant_nonneg:
  assumes "0 \<le> n" "0 < d"
  shows "0 \<le> mant (rnd n d x)"
proof (cases "n = 0")
  case True
  then show ?thesis
    by (simp add: rnd_def)
next
  case False
  with assms have n: "0 < n"
    by simp
  have "0 \<le> round_half_even_div (\<bar>n\<bar> * 2 ^ nat (52 - binade_frac \<bar>n\<bar> d))
      (d * 2 ^ nat (binade_frac \<bar>n\<bar> d - 52))"
    using assms by (intro round_half_even_div_nonneg) simp_all
  then show ?thesis
    using n by (simp add: rnd_def Let_def)
qed

lemma rnd_expn_le:
  assumes "0 < n" "0 < d"
  shows "expn (rnd n d x) \<le> binade_frac n d - 51 + x"
  using assms by (simp add: rnd_def Let_def)

lemma thousand: "float_of_int 1000 = Dbl 8796093022208000 (- 43)"
  by code_simp

lemma delay_ok:
  assumes "0 < d" "d < 2 ^ 32"
  shows "\<not> float_overflows (int_truediv d steps)"
    and "0 \<le> mant (float_div (int_truediv d steps) (float_of_int 1000))"
proof -
  have k: "binade_frac d 20 < 32"
  proof (rule ccontr)
    assume "\<not> binade_frac d 20 < 32"
    then have "(2 :: rat) powi 32 \<le> 2 powi binade_frac d 20"
      by (intro two_powi_mono) simp
    also have "\<dots> \<le> of_int d / of_int 20"
      using assms(1) by (intro binade_frac_bounds) simp_all
    also have "\<dots> \<le> of_int d"
      using assms(1) by simp
    also have "\<dots> < of_int (2 ^ 32)"
      using assms(2) by (simp only: of_int_less_iff)
    finally show False
      by simp
  qed
  have "expn (int_truediv d steps) \<le> binade_frac d 20 - 51 + 0"
    unfolding int_truediv_def steps_def using assms(1) by (intro rnd_expn_le) simp_all
  with k show "\<not> float_overflows (int_truediv d steps)"
    by (simp add: float_overflows_def)
  have "0 \<le> mant (int_truediv d steps)"
    unfolding int_truediv_def steps_def using assms(1) by (intro rnd_mant_nonneg) simp_all
  then show "0 \<le> mant (float_div (int_truediv d steps) (float_of_int 1000))"
    unfolding float_div_def thousand by (intro rnd_mant_nonneg) simp_all
qed

lemma val_float_div:
  assumes "mant b \<noteq> 0"
  shows "val (float_div a b) = nearest (val a / val b)"
proof -
  have pos: "0 < \<bar>mant b\<bar>"
    using assms by simp
  have "val (float_div a b)
      = nearest (of_int (mant a * sgn (mant b)) / of_int \<bar>mant b\<bar> * 2 powi (expn a - expn b))"
    unfolding float_div_def by (rule val_rnd [OF pos])
  also have "(of_int (mant a * sgn (mant b)) :: rat) / of_int \<bar>mant b\<bar>
      = of_int (mant a) / of_int (mant b)"
    using assms by (cases "0 < mant b") (simp_all add: sgn_if)
  also have "of_int (mant a) / of_int (mant b) * (2 :: rat) powi (expn a - expn b)
      = val a / val b"
    by (simp add: val_def two_powi_diff)
  finally show ?thesis .
qed

lemma transition_loop_run:
  assumes "0 \<le> mant delay"
  shows "fst (transition_loop c0 c1 delay is s) = None
         \<and> map fst (attempts (snd (transition_loop c0 c1 delay is s)))
             = map fst (attempts s) @ map (\<lambda>i. rgb_to_hex (frame c0 c1 i)) is
         \<and> sleeps (snd (transition_loop c0 c1 delay is s))
             = sleeps s @ replicate (length is) delay"
proof (induction "is" arbitrary: s)
  case Nil
  then show ?case by simp
next
  case (Cons i rest)
  obtain r0 g0 b0 r1 g1 b1 where c: "c0 = (r0, g0, b0)" "c1 = (r1, g1, b1)"
    by (cases c0, cases c1) auto
  define s1 where "s1 = write_color (rgb_to_hex (frame c0 c1 i)) s"
  define s2 where "s2 = s1\<lparr>sleeps := sleeps s1 @ [delay]\<rparr>"
  have step: "transition_loop c0 c1 delay (i # rest) s = transition_loop c0 c1 delay rest s2"
    using assms by (simp add: c Let_def py_sleep_def s2_def s1_def frame_def)
  have a: "map fst (attempts s2) = map fst (attempts s) @ [rgb_to_hex (frame c0 c1 i)]"
    by (simp add: s2_def s1_def write_color_attempts)
  have sl: "sleeps s2 = sleeps s @ [delay]"
    by (simp add: s2_def s1_def write_color_frame)
  show ?case
    unfolding step using Cons.IH [of s2]
    by (simp add: a sl replicate_append_same)
qed

lemma eq_by_chan:
  assumes "\<And>ch. chan ch x = chan ch y"
  shows "x = y"
proof -
  obtain r g b r' g' b' where x: "x = (r, g, b)" and y: "y = (r', g', b')"
    by (cases x, cases y) auto
  from assms [of Red] assms [of Green] assms [of Blue] show ?thesis
    by (simp add: x y)
qed

lemma set_color_timed:
  assumes "hex6 a" "hex6 b" "py_lower a \<noteq> py_lower b" "0 < d" "d < 2 ^ 32"
    and "current_hardware_color s = Some a"
  obtains c0 c1 where "hex_to_rgb a = Inr c0" "hex_to_rgb b = Inr c1" "rgb8 c0" "rgb8 c1"
    "rgb_to_hex c1 = py_lower b"
    "fst (set_color b (Some d) s) = None"
    "map fst (attempts (snd (set_color b (Some d) s)))
       = map fst (attempts s) @ map (\<lambda>i. rgb_to_hex (frame c0 c1 i)) [1 .. 20]"
    "sleeps (snd (set_color b (Some d) s))
       = sleeps s @ replicate 20 (float_div (int_truediv d steps) (float_of_int 1000))"
proof -
  from hex6_parse [OF assms(1)] obtain r0 g0 b0 where
    a: "hex_to_rgb a = Inr (r0, g0, b0)" "rgb8 (r0, g0, b0)"
    by (auto simp: rgb8_def)
  from hex6_parse [OF assms(2)] obtain r1 g1 b1 where
    b: "hex_to_rgb b = Inr (r1, g1, b1)" "rgb_to_hex (r1, g1, b1) = py_lower b"
      "rgb8 (r1, g1, b1)"
    by (auto simp: rgb8_def)
  define delay where "delay = float_div (int_truediv d steps) (float_of_int 1000)"
  have ne: "a \<noteq> []"
    using assms(1) by (auto simp: hex6_def)
  note ok = delay_ok [OF assms(4,5)]
  have sc: "set_color b (Some d) s
      = transition_loop (r0, g0, b0) (r1, g1, b1) delay [1 .. steps] s"
    using assms(3,4,6) ne ok(1) by (simp add: set_color_def a b Let_def delay_def)
  have len: "length [1 .. 20 :: int] = 20"
    by simp
  note run = transition_loop_run [OF ok(2), of "(r0, g0, b0)" "(r1, g1, b1)" "[1 .. 20]" s,
      folded delay_def, unfolded len]
  show ?thesis
    by (rule that [OF a(1) b(1) a(2) b(3) b(2)])
      (use run in \<open>simp_all add: sc steps_def delay_def\<close>)
qed

lemma frame_last:
  assumes "rgb8 c0" "rgb8 c1"
  shows "frame c0 c1 20 = c1"
proof (rule eq_by_chan)
  fix ch
  have "\<bar>chan ch c0\<bar> \<le> 255" "\<bar>chan ch c1\<bar> \<le> 255"
    using rgb8_chan [OF assms(1), of ch] rgb8_chan [OF assms(2), of ch] by simp_all
  then show "chan ch (frame c0 c1 20) = chan ch c1"
    unfolding chan_frame by (rule lerp_last) (rule step_last)
qed

lemma frame_monotone:
  assumes "rgb8 c0" "rgb8 c1" "1 \<le> i" "i \<le> j" "j \<le> 20"
  shows "chan ch c0 \<le> chan ch c1 \<Longrightarrow>
           chan ch c0 \<le> chan ch (frame c0 c1 i)
           \<and> chan ch (frame c0 c1 i) \<le> chan ch (frame c0 c1 j)
           \<and> chan ch (frame c0 c1 j) \<le> chan ch c1"
    and "chan ch c1 \<le> chan ch c0 \<Longrightarrow>
           chan ch c1 \<le> chan ch (frame c0 c1 j)
           \<and> chan ch (frame c0 c1 j) \<le> chan ch (frame c0 c1 i)
           \<and> chan ch (frame c0 c1 i) \<le> chan ch c0"
proof -
  have b: "\<bar>chan ch c0\<bar> \<le> 255" "\<bar>chan ch c1\<bar> \<le> 255"
    using rgb8_chan [OF assms(1), of ch] rgb8_chan [OF assms(2), of ch] by simp_all
  have t: "0 \<le> val (int_truediv i steps)"
    "val (int_truediv i steps) \<le> val (int_truediv j steps)"
    "val (int_truediv j steps) \<le> 1"
    using assms(3-5) by (simp_all add: step_unit step_mono)
  show "chan ch c0 \<le> chan ch (frame c0 c1 i)
           \<and> chan ch (frame c0 c1 i) \<le> chan ch (frame c0 c1 j)
           \<and> chan ch (frame c0 c1 j) \<le> chan ch c1" if "chan ch c0 \<le> chan ch c1"
    unfolding chan_frame using lerp_up [OF b that t] by simp
  show "chan ch c1 \<le> chan ch (frame c0 c1 j)
           \<and> chan ch (frame c0 c1 j) \<le> chan ch (frame c0 c1 i)
           \<and> chan ch (frame c0 c1 i) \<le> chan ch c0" if "chan ch c1 \<le> chan ch c0"
    unfolding chan_frame using lerp_down [OF b that t] by simp
qed

lemma frame_first_strict:
  assumes "rgb8 c0" "rgb8 c1" "20 \<le> \<bar>chan ch c1 - chan ch c0\<bar>"
  shows "(chan ch c0 < chan ch (frame c0 c1 1) \<and> chan ch (frame c0 c1 1) < chan ch c1)
         \<or> (chan ch c1 < chan ch (frame c0 c1 1) \<and> chan ch (frame c0 c1 1) < chan ch c0)"
proof -
  have b: "\<bar>chan ch c0\<bar> \<le> 255" "\<bar>chan ch c1\<bar> \<le> 255"
    using rgb8_chan [OF assms(1), of ch] rgb8_chan [OF assms(2), of ch] by simp_all
  from assms(3) consider "20 \<le> chan ch c1 - chan ch c0" | "20 \<le> chan ch c0 - chan ch c1"
    by linarith
  then show ?thesis
  proof cases
    case 1
    from lerp_first_up [OF b this] show ?thesis
      by (simp add: chan_frame)
  next
    case 2
    from lerp_first_down [OF b this] show ?thesis
      by (simp add: chan_frame)
  qed
qed

text \<open>
  Claim C1, as amended. For colours \<open>a\<close> (the current hardware colour) and \<open>b\<close> that differ
  as colours, and a duration \<open>0 < d < 2^32\<close>, \<open>set_color\<close> returns normally after exactly
  20 hardware writes; the last written colour is \<open>b\<close> in lowercase hex; in every channel
  the written values are monotonic (non-decreasing when the channel of \<open>b\<close> is at least
  that of \<open>a\<close>, non-increasing when it is at most that) and lie between the two, ends
  included; the first written value lies strictly between them in every channel in which
  \<open>a\<close> and \<open>b\<close> differ by 20 or more.
\<close>

theorem timed_transition:
  assumes "hex6 a" "hex6 b" "py_lower a \<noteq> py_lower b" "0 < d" "d < 2 ^ 32"
    and "current_hardware_color s = Some a"
  shows "\<exists>c0 c1. hex_to_rgb a = Inr c0 \<and> hex_to_rgb b = Inr c1
     \<and> fst (set_color b (Some d) s) = None
     \<and> map fst (attempts (snd (set_color b (Some d) s)))
         = map fst (attempts s) @ map (\<lambda>i. rgb_to_hex (frame c0 c1 i)) [1 .. 20]
     \<and> length (attempts (snd (set_color b (Some d) s))) = length (attempts s) + 20
     \<and> rgb_to_hex (frame c0 c1 20) = py_lower b
     \<and> (\<forall>ch i j. 1 \<le> i \<and> i \<le> j \<and> j \<le> 20 \<longrightarrow>
           (chan ch c0 \<le> chan ch c1 \<longrightarrow>
              chan ch c0 \<le> chan ch (frame c0 c1 i)
              \<and> chan ch (frame c0 c1 i) \<le> chan ch (frame c0 c1 j)
              \<and> chan ch (frame c0 c1 j) \<le> chan ch c1)
           \<and> (chan ch c1 \<le> chan ch c0 \<longrightarrow>
              chan ch c1 \<le> chan ch (frame c0 c1 j)
              \<and> chan ch (frame c0 c1 j) \<le> chan ch (frame c0 c1 i)
              \<and> chan ch (frame c0 c1 i) \<le> chan ch c0))
     \<and> (\<forall>ch. 20 \<le> \<bar>chan ch c1 - chan ch c0\<bar> \<longrightarrow>
           (chan ch c0 < chan ch (frame c0 c1 1) \<and> chan ch (frame c0 c1 1) < chan ch c1)
           \<or> (chan ch c1 < chan ch (frame c0 c1 1) \<and> chan ch (frame c0 c1 1) < chan ch c0))"
proof -
  from set_color_timed [OF assms] obtain c0 c1 where
    h: "hex_to_rgb a = Inr c0" "hex_to_rgb b = Inr c1" "rgb8 c0" "rgb8 c1"
      "rgb_to_hex c1 = py_lower b" "fst (set_color b (Some d) s) = None"
      "map fst (attempts (snd (set_color b (Some d) s)))
         = map fst (attempts s) @ map (\<lambda>i. rgb_to_hex (frame c0 c1 i)) [1 .. 20]"
    by blast
  have "length (map fst (attempts (snd (set_color b (Some d) s))))
      = length (map fst (attempts s) @ map (\<lambda>i. rgb_to_hex (frame c0 c1 i)) [1 .. 20])"
    by (simp only: h(7))
  then have len: "length (attempts (snd (set_color b (Some d) s))) = length (attempts s) + 20"
    by simp
  have last: "rgb_to_hex (frame c0 c1 20) = py_lower b"
    by (simp add: frame_last [OF h(3,4)] h(5))
  have mono: "\<forall>ch i j. 1 \<le> i \<and> i \<le> j \<and> j \<le> 20 \<longrightarrow>
           (chan ch c0 \<le> chan ch c1 \<longrightarrow>
              chan ch c0 \<le> chan ch (frame c0 c1 i)
              \<and> chan ch (frame c0 c1 i) \<le> chan ch (frame c0 c1 j)
              \<and> chan ch (frame c0 c1 j) \<le> chan ch c1)
           \<and> (chan ch c1 \<le> chan ch c0 \<longrightarrow>
              chan ch c1 \<le> chan ch (frame c0 c1 j)
              \<and> chan ch (frame c0 c1 j) \<le> chan ch (frame c0 c1 i)
              \<and> chan ch (frame c0 c1 i) \<le> chan ch c0)"
    using frame_monotone [OF h(3,4)] by blast
  have strict: "\<forall>ch. 20 \<le> \<bar>chan ch c1 - chan ch c0\<bar> \<longrightarrow>
           (chan ch c0 < chan ch (frame c0 c1 1) \<and> chan ch (frame c0 c1 1) < chan ch c1)
           \<or> (chan ch c1 < chan ch (frame c0 c1 1) \<and> chan ch (frame c0 c1 1) < chan ch c0)"
    using frame_first_strict [OF h(3,4)] by blast
  show ?thesis
    using h(1,2,6,7) len last mono strict by blast
qed

lemma delay_val:
  assumes "0 < d"
  shows "val (float_div (int_truediv d steps) (float_of_int 1000))
           = nearest (nearest (of_int d / 20) / 1000)"
    and "\<bar>val (float_div (int_truediv d steps) (float_of_int 1000)) - of_int d / 20000\<bar>
           \<le> of_int d / 20000 * (3 / 2 ^ 53)"
proof -
  define u :: rat where "u = 1 / 2 ^ 53"
  define X :: rat where "X = of_int d / 20000"
  define q1 where "q1 = nearest (of_int d / 20)"
  define q2 where "q2 = nearest (q1 / 1000)"
  define w where "w = X * u"
  have m: "mant (float_of_int 1000) \<noteq> 0" and v: "val (float_of_int 1000) = 1000"
    by (simp_all add: thousand val_def power_int_minus_divide)
  show V: "val (float_div (int_truediv d steps) (float_of_int 1000))
           = nearest (nearest (of_int d / 20) / 1000)"
    by (simp add: val_float_div [OF m] v step_val)
  have u: "0 < u" "u \<le> 1"
    by (simp_all add: u_def)
  have X: "0 < X"
    using assms by (simp add: X_def)
  have w: "0 \<le> w" "w * u \<le> w"
    using X u by (simp_all add: w_def mult_left_le)
  have err: "\<bar>nearest q - q\<bar> \<le> \<bar>q\<bar> * u" for q
    using nearest_error [of q] by (simp add: u_def)
  have "\<bar>q1 - of_int d / 20\<bar> \<le> \<bar>of_int d / 20\<bar> * u"
    unfolding q1_def by (rule err)
  then have "\<bar>q1 - 1000 * X\<bar> \<le> 1000 * X * u"
    using assms by (simp add: X_def)
  then have e1: "\<bar>q1 / 1000 - X\<bar> \<le> w"
    by (simp add: w_def abs_le_iff field_simps)
  then have a: "\<bar>q1 / 1000\<bar> \<le> X + w"
    using X unfolding abs_le_iff by linarith
  have "\<bar>q2 - q1 / 1000\<bar> \<le> \<bar>q1 / 1000\<bar> * u"
    unfolding q2_def by (rule err)
  also have "\<dots> \<le> (X + w) * u"
    using a u(1) by (intro mult_right_mono) simp_all
  also have "\<dots> = w + w * u"
    by (simp add: w_def algebra_simps)
  also have "\<dots> \<le> 2 * w"
    using w(2) by simp
  finally have e2: "\<bar>q2 - q1 / 1000\<bar> \<le> 2 * w" .
  have "\<bar>q2 - X\<bar> \<le> 3 * w"
    using e1 e2 unfolding abs_le_iff by linarith
  then show "\<bar>val (float_div (int_truediv d steps) (float_of_int 1000)) - of_int d / 20000\<bar>
           \<le> of_int d / 20000 * (3 / 2 ^ 53)"
    unfolding V by (simp add: q2_def q1_def X_def w_def u_def)
qed

lemma frame_rounding:
  assumes "rgb8 c0" "rgb8 c1" "1 \<le> i" "i \<le> 20"
  shows "chan ch (frame c0 c1 i)
           = trunc (nearest (of_int (chan ch c0)
               + nearest (of_int (chan ch c1 - chan ch c0) * nearest (of_int i / 20))))"
    and "0 \<le> chan ch (frame c0 c1 i)" "chan ch (frame c0 c1 i) \<le> 255"
    and "\<not> 20 dvd (chan ch c1 - chan ch c0) * i \<Longrightarrow>
           chan ch (frame c0 c1 i) = chan ch (exact_frame c0 c1 i)"
    and "chan ch (frame c0 c1 i) = chan ch (exact_frame c0 c1 i)
         \<or> chan ch (frame c0 c1 i) = chan ch (exact_frame c0 c1 i) - 1"
proof -
  note r0 = rgb8_chan [OF assms(1), of ch] and r1 = rgb8_chan [OF assms(2), of ch]
  have c: "0 \<le> chan ch c0" "chan ch c0 \<le> 255" "0 \<le> chan ch c1" "chan ch c1 \<le> 255"
    using r0 r1 by simp_all
  have b: "\<bar>chan ch c0\<bar> \<le> 255" "\<bar>chan ch c1\<bar> \<le> 255"
    using c by simp_all
  have i: "0 \<le> i" "i \<le> 20"
    using assms(3,4) by simp_all
  show "chan ch (frame c0 c1 i)
           = trunc (nearest (of_int (chan ch c0)
               + nearest (of_int (chan ch c1 - chan ch c0) * nearest (of_int i / 20))))"
    by (simp only: chan_frame lerp_val [OF b] lerp_float_def step_val)
  have m: "1 \<le> i" "i \<le> i" "i \<le> 20"
    using assms(3,4) by simp_all
  show "0 \<le> chan ch (frame c0 c1 i)" "chan ch (frame c0 c1 i) \<le> 255"
    using frame_monotone [OF assms(1,2) m, of ch] c by linarith+
  show "chan ch (frame c0 c1 i) = chan ch (exact_frame c0 c1 i)"
    if "\<not> 20 dvd (chan ch c1 - chan ch c0) * i"
    unfolding chan_frame chan_exact_frame using that by (rule lerp_vs_exact(1) [OF c i])
  show "chan ch (frame c0 c1 i) = chan ch (exact_frame c0 c1 i)
         \<or> chan ch (frame c0 c1 i) = chan ch (exact_frame c0 c1 i) - 1"
    unfolding chan_frame chan_exact_frame by (rule lerp_vs_exact(2) [OF c i])
qed

text \<open>
  Claim C7, as amended. In an interpolated transition the colour of step \<open>i\<close>, for \<open>i\<close>
  from 1 to 20, has in each channel the truncation toward zero of
  \<open>start + (end - start) * t\<close> with \<open>t = i / 20\<close> as binary64 arithmetic computes it, each
  operation rounded to nearest. That is the truncation of the exact value whenever
  \<open>(end - start) * i\<close> is not a multiple of 20, and otherwise the exact value or one less.
  Every channel stays in \<open>[0, 255]\<close>. Each step is followed by a sleep of
  \<open>duration_ms / 20 / 1000.0\<close> seconds, which is \<open>duration_ms / 20\<close> milliseconds up to a
  relative error of \<open>3 / 2^53\<close>.
\<close>

theorem transition_steps:
  assumes "hex6 a" "hex6 b" "py_lower a \<noteq> py_lower b" "0 < d" "d < 2 ^ 32"
    and "current_hardware_color s = Some a"
  shows "\<exists>c0 c1. hex_to_rgb a = Inr c0 \<and> hex_to_rgb b = Inr c1
     \<and> map fst (attempts (snd (set_color b (Some d) s)))
         = map fst (attempts s) @ map (\<lambda>i. rgb_to_hex (frame c0 c1 i)) [1 .. 20]
     \<and> (\<forall>ch i. 1 \<le> i \<and> i \<le> 20 \<longrightarrow>
           chan ch (frame c0 c1 i)
             = trunc (nearest (of_int (chan ch c0)
                 + nearest (of_int (chan ch c1 - chan ch c0) * nearest (of_int i / 20))))
           \<and> 0 \<le> chan ch (frame c0 c1 i) \<and> chan ch (frame c0 c1 i) \<le> 255
           \<and> (\<not> 20 dvd (chan ch c1 - chan ch c0) * i \<longrightarrow>
                chan ch (frame c0 c1 i) = chan ch (exact_frame c0 c1 i))
           \<and> (chan ch (frame c0 c1 i) = chan ch (exact_frame c0 c1 i)
                \<or> chan ch (frame c0 c1 i) = chan ch (exact_frame c0 c1 i) - 1))
     \<and> sleeps (snd (set_color b (Some d) s))
         = sleeps s @ replicate 20 (float_div (int_truediv d steps) (float_of_int 1000))
     \<and> val (float_div (int_truediv d steps) (float_of_int 1000))
         = nearest (nearest (of_int d / 20) / 1000)
     \<and> \<bar>val (float_div (int_truediv d steps) (float_of_int 1000)) - of_int d / 20000\<bar>
         \<le> of_int d / 20000 * (3 / 2 ^ 53)"
proof -
  from set_color_timed [OF assms] obtain c0 c1 where
    h: "hex_to_rgb a = Inr c0" "hex_to_rgb b = Inr c1" "rgb8 c0" "rgb8 c1"
      "map fst (attempts (snd (set_color b (Some d) s)))
         = map fst (attempts s) @ map (\<lambda>i. rgb_to_hex (frame c0 c1 i)) [1 .. 20]"
      "sleeps (snd (set_color b (Some d) s))
         = sleeps s @ replicate 20 (float_div (int_truediv d steps) (float_of_int 1000))"
    by blast
  have st: "\<forall>ch i. 1 \<le> i \<and> i \<le> 20 \<longrightarrow>
           chan ch (frame c0 c1 i)
             = trunc (nearest (of_int (chan ch c0)
                 + nearest (of_int (chan ch c1 - chan ch c0) * nearest (of_int i / 20))))
           \<and> 0 \<le> chan ch (frame c0 c1 i) \<and> chan ch (frame c0 c1 i) \<le> 255
           \<and> (\<not> 20 dvd (chan ch c1 - chan ch c0) * i \<longrightarrow>
                chan ch (frame c0 c1 i) = chan ch (exact_frame c0 c1 i))
           \<and> (chan ch (frame c0 c1 i) = chan ch (exact_frame c0 c1 i)
                \<or> chan ch (frame c0 c1 i) = chan ch (exact_frame c0 c1 i) - 1)"
    using frame_rounding [OF h(3,4)] by blast
  show ?thesis
    using h(1,2,5,6) st delay_val [OF assms(4)] by blast
qed

lemma black_then_fields:
  "current_hardware_color black_then = Some ''000000''"
  "map fst (attempts black_then) = [''000000'']"
  "sleeps black_then = []"
  by (simp_all add: black_then_def set_color_def write_color_def init_state_def io_const_def)

lemma hex6_examples: "hex6 ''000000''" "hex6 ''000001''" "hex6 ''00005a''"
  by (simp_all add: hex6_def hexval_table)

lemma lower_examples:
  "py_lower ''000000'' \<noteq> py_lower ''000001''" "py_lower ''000000'' \<noteq> py_lower ''00005a''"
  by (simp_all add: py_lower_def lower_char_def)

lemma parse_examples:
  "hex_to_rgb ''000000'' = Inr (0, 0, 0)" "hex_to_rgb ''000001'' = Inr (0, 0, 1)"
  "hex_to_rgb ''00005a'' = Inr (0, 0, 90)"
  by code_simp+

lemma frame_examples:
  "rgb_to_hex (frame (0, 0, 0) (0, 0, 1) 1) = ''000000''"
  "rgb_to_hex (frame (0, 0, 0) (0, 0, 90) 14) = ''00003e''"
  by code_simp+

lemma exact_frame_example: "rgb_to_hex (exact_frame (0, 0, 0) (0, 0, 90) 14) = ''00003f''"
proof -
  have "exact_frame (0, 0, 0) (0, 0, 90) 14 = (0, 0, 63)"
    by (simp add: exact_frame_def exact_lerp_def trunc_def)
  moreover have "rgb_to_hex (0, 0, 63) = ''00003f''"
    by code_simp
  ultimately show ?thesis
    by simp
qed

lemma upto_nth_examples: "[1 .. 20 :: int] ! 0 = 1" "[1 .. 20 :: int] ! 13 = 14"
  by (simp_all add: nth_upto)

lemma transition_write:
  assumes "hex6 b" "py_lower ''000000'' \<noteq> py_lower b" "hex_to_rgb b = Inr c1"
    and "k < 20"
  shows "map fst (attempts (snd (set_color b (Some 100) black_then))) ! Suc k
           = rgb_to_hex (frame (0, 0, 0) c1 ([1 .. 20] ! k))"
proof -
  have d: "(0 :: int) < 100" "(100 :: int) < 2 ^ 32"
    by simp_all
  show ?thesis
  proof (rule set_color_timed [OF hex6_examples(1) assms(1,2) d black_then_fields(1)])
    fix c0 c1'
    assume h: "hex_to_rgb ''000000'' = Inr c0" "hex_to_rgb b = Inr c1'"
      and w: "map fst (attempts (snd (set_color b (Some 100) black_then)))
         = map fst (attempts black_then) @ map (\<lambda>i. rgb_to_hex (frame c0 c1' i)) [1 .. 20]"
    have c: "c0 = (0, 0, 0)" "c1' = c1"
      using h assms(3) by (simp_all add: parse_examples)
    have len: "k < length [1 .. 20 :: int]"
      using assms(4) by simp
    show ?thesis
      unfolding w black_then_fields(2) c using len by (simp del: upto.simps)
  qed
qed

text \<open>
  The claim C1 as it was stated fails: going from \<open>000000\<close> to \<open>000001\<close> the first written
  colour is \<open>000000\<close>, the start itself, not a colour strictly between the two.
\<close>

theorem first_write_equals_start:
  "hex6 ''000000'' \<and> hex6 ''000001'' \<and> py_lower ''000000'' \<noteq> py_lower ''000001''
   \<and> current_hardware_color black_then = Some ''000000''
   \<and> map fst (attempts black_then) = [''000000'']
   \<and> map fst (attempts (snd (set_color ''000001'' (Some 100) black_then))) ! 1 = ''000000''"
  using transition_write [OF hex6_examples(2) lower_examples(1) parse_examples(2), of 0]
  by (simp add: hex6_examples lower_examples black_then_fields upto_nth_examples frame_examples)

text \<open>
  The claim C7 as it was stated fails: going from \<open>000000\<close> to \<open>00005a\<close>, step 14 writes
  \<open>00003e\<close>, since \<open>90 * 0.7\<close> is \<open>62.99999999999999\<close> in binary64, while the truncation
  of \<open>0 + 90 * 14 / 20 = 63\<close> is \<open>3f\<close>.
\<close>

theorem step_differs_from_exact_truncation:
  "hex6 ''000000'' \<and> hex6 ''00005a'' \<and> py_lower ''000000'' \<noteq> py_lower ''00005a''
   \<and> current_hardware_color black_then = Some ''000000''
   \<and> map fst (attempts black_then) = [''000000'']
   \<and> hex_to_rgb ''000000'' = Inr (0, 0, 0) \<and> hex_to_rgb ''00005a'' = Inr (0, 0, 90)
   \<and> map fst (attempts (snd (set_color ''00005a'' (Some 100) black_then))) ! 14 = ''00003e''
   \<and> rgb_to_hex (exact_frame (0, 0, 0) (0, 0, 90) 14) = ''00003f''"
  using transition_write [OF hex6_examples(3) lower_examples(2) parse_examples(3), of 13]
  by (simp add: hex6_examples lower_examples black_then_fields upto_nth_examples frame_examples
      exact_frame_example parse_examples)

theorem timed_transition_witness:
  "hex6 ''000000'' \<and> hex6 ''00005a'' \<and> py_lower ''000000'' \<noteq> py_lower ''00005a''
   \<and> (0 :: int) < 100 \<and> (100 :: int) < 2 ^ 32
   \<and> current_hardware_color black_then = Some ''000000''
   \<and> fst (set_color ''00005a'' (Some 100) black_then) = None
   \<and> length (attempts (snd (set_color ''00005a'' (Some 100) black_then)))
       = length (attempts black_then) + 20"
proof -
  have d: "(0 :: int) < 100" "(100 :: int) < 2 ^ 32"
    by simp_all
  from timed_transition [OF hex6_examples(1,3) lower_examples(2) d black_then_fields(1)]
  have "fst (set_color ''00005a'' (Some 100) black_then) = None
      \<and> length (attempts (snd (set_color ''00005a'' (Some 100) black_then)))
          = length (attempts black_then) + 20"
    by blast
  then show ?thesis
    using hex6_examples lower_examples d black_then_fields(1) by blast
qed

theorem transition_steps_witness:
  "hex6 ''000000'' \<and> hex6 ''00005a'' \<and> py_lower ''000000'' \<noteq> py_lower ''00005a''
   \<and> (0 :: int) < 100 \<and> (100 :: int) < 2 ^ 32
   \<and> current_hardware_color black_then = Some ''000000''
   \<and> sleeps (snd (set_color ''00005a'' (Some 100) black_then))
       = replicate 20 (float_div (int_truediv 100 steps) (float_of_int 1000))
   \<and> val (float_div (int_truediv 100 steps) (float_of_int 1000))
       = nearest (nearest (of_int 100 / 20) / 1000)"
proof -
  have d: "(0 :: int) < 100" "(100 :: int) < 2 ^ 32"
    by simp_all
  from transition_steps [OF hex6_examples(1,3) lower_examples(2) d black_then_fields(1)]
  have "sleeps (snd (set_color ''00005a'' (Some 100) black_then))
       = sleeps black_then @ replicate 20 (float_div (int_truediv 100 steps) (float_of_int 1000))
      \<and> val (float_div (int_truediv 100 steps) (float_of_int 1000))
       = nearest (nearest (of_int 100 / 20) / 1000)"
    by blast
  then have "sleeps (snd (set_color ''00005a'' (Some 100) black_then))
       = replicate 20 (float_div (int_truediv 100 steps) (float_of_int 1000))
      \<and> val (float_div (int_truediv 100 steps) (float_of_int 1000))
       = nearest (nearest (of_int 100 / 20) / 1000)"
    by (simp only: black_then_fields(3) append_Nil)
  then show ?thesis
    using hex6_examples lower_examples d black_then_fields(1) by blast
qed

end
